theory Spec2Isabelle
  imports Main "HOL-Library.Char_ord" "HOL-Library.List_Lexorder" "HOL-Library.Multiset"
begin

section \<open>Strings and POSIX paths\<close>

text \<open>
  Python strings are modelled as \<open>string\<close> (lists of characters), compared
  lexicographically character by character as Python's \<open>str\<close> is. The path separator
  \<open>os.sep\<close> is the POSIX one.
\<close>

datatype exn = ValueError string | FileNotFoundError | NotADirectoryError | Exception string

definition sep :: char where
  "sep = CHR ''/''"

text \<open>\<open>s.startswith(p)\<close>.\<close>

fun startswith :: "string \<Rightarrow> string \<Rightarrow> bool" where
  "startswith s [] = True"
| "startswith [] (p # ps) = False"
| "startswith (c # cs) (p # ps) = (c = p \<and> startswith cs ps)"

text \<open>\<open>s.split(sep)\<close>: never the empty list; \<open>''''.split(sep)\<close> is \<open>['''']\<close>.\<close>

fun split_sep :: "string \<Rightarrow> string list" where
  "split_sep [] = [[]]"
| "split_sep (c # cs) =
     (if c = sep then [] # split_sep cs
      else (c # hd (split_sep cs)) # tl (split_sep cs))"

text \<open>\<open>sep.join(comps)\<close>.\<close>

fun join_sep :: "string list \<Rightarrow> string" where
  "join_sep [] = []"
| "join_sep [c] = c"
| "join_sep (c # d # ds) = c @ sep # join_sep (d # ds)"

text \<open>\<open>s.lstrip(sep)\<close>.\<close>

fun lstrip_sep :: "string \<Rightarrow> string" where
  "lstrip_sep [] = []"
| "lstrip_sep (c # cs) = (if c = sep then lstrip_sep cs else c # cs)"

text \<open>
  \<open>posixpath.join(a, b)\<close> for two arguments: an absolute \<open>b\<close> replaces \<open>a\<close>; otherwise
  \<open>b\<close> is appended, after a separator unless \<open>a\<close> is empty or already ends with one.
\<close>

definition path_join :: "string \<Rightarrow> string \<Rightarrow> string" where
  "path_join a b =
     (if startswith b [sep] then b
      else if a = [] \<or> last a = sep then a @ b
      else a @ sep # b)"

text \<open>
  The loop of \<open>posixpath.normpath\<close> over the components of the path:
  \<open>initial_slashes\<close> says whether the path is absolute, \<open>new_comps\<close> is the list built
  so far.
\<close>

fun norm_comps :: "bool \<Rightarrow> string list \<Rightarrow> string list \<Rightarrow> string list" where
  "norm_comps initial_slashes [] new_comps = new_comps"
| "norm_comps initial_slashes (c # comps) new_comps =
     (if c = [] \<or> c = ''.'' then norm_comps initial_slashes comps new_comps
      else if c \<noteq> ''..'' \<or> (\<not> initial_slashes \<and> new_comps = [])
                \<or> (new_comps \<noteq> [] \<and> last new_comps = ''..'')
        then norm_comps initial_slashes comps (new_comps @ [c])
      else if new_comps \<noteq> [] then norm_comps initial_slashes comps (butlast new_comps)
      else norm_comps initial_slashes comps new_comps)"

text \<open>
  The number of leading slashes \<open>normpath\<close> keeps: POSIX allows one or two, and treats
  three or more as one.
\<close>

definition initial_slashes :: "string \<Rightarrow> nat" where
  "initial_slashes path =
     (if \<not> startswith path [sep] then 0
      else if startswith path [sep, sep] \<and> \<not> startswith path [sep, sep, sep] then 2
      else 1)"

definition normpath :: "string \<Rightarrow> string" where
  "normpath path =
     (if path = [] then ''.''
      else
        let n = initial_slashes path;
            comps = norm_comps (n \<noteq> 0) (split_sep path) [];
            p = replicate n sep @ join_sep comps
        in if p = [] then ''.'' else p)"

text \<open>
  \<open>posixpath.abspath\<close>; \<open>cwd\<close> is what \<open>os.getcwd()\<close> returns, read only when the
  path is relative.
\<close>

definition abspath :: "string \<Rightarrow> string \<Rightarrow> string" where
  "abspath cwd path =
     normpath (if \<not> startswith path [sep] then path_join cwd path else path)"

text \<open>\<open>genericpath.commonprefix\<close> of two lists of components.\<close>

fun commonprefix :: "string list \<Rightarrow> string list \<Rightarrow> string list" where
  "commonprefix (x # xs) (y # ys) = (if x = y then x # commonprefix xs ys else [])"
| "commonprefix xs ys = []"

text \<open>
  \<open>posixpath.relpath(path, start)\<close>: raises \<open>ValueError\<close> on an empty \<open>path\<close>; otherwise
  both paths are made absolute and normal, and the result climbs from \<open>start\<close> to the
  common ancestor and descends to \<open>path\<close>.
\<close>

definition path_list :: "string \<Rightarrow> string \<Rightarrow> string list" where
  "path_list cwd p =
     (let tail = lstrip_sep (abspath cwd p) in if tail = [] then [] else split_sep tail)"

definition relpath :: "string \<Rightarrow> string \<Rightarrow> string \<Rightarrow> exn + string" where
  "relpath cwd path start =
     (if path = [] then Inl (ValueError ''no path specified'')
      else
        let start_list = path_list cwd start;
            path_list = path_list cwd path;
            i = length (commonprefix start_list path_list);
            rel_list = replicate (length start_list - i) ''..'' @ drop i path_list
        in if rel_list = [] then Inr ''.'' else Inr (join_sep rel_list))"

section \<open>Name Mapper\<close>

text \<open>The loop \<open>while rel.startswith("."): rel = rel[1:]\<close>.\<close>

fun strip_dots :: "string \<Rightarrow> string" where
  "strip_dots [] = []"
| "strip_dots (c # cs) = (if c = CHR ''.'' then strip_dots cs else c # cs)"

text \<open>\<open>rel.replace(os.sep, "_")\<close>.\<close>

fun replace_sep :: "string \<Rightarrow> string" where
  "replace_sep [] = []"
| "replace_sep (c # cs) = (if c = sep then CHR ''_'' # replace_sep cs else c # replace_sep cs)"

definition mbox_filename :: "string \<Rightarrow> string \<Rightarrow> string \<Rightarrow> exn + string" where
  "mbox_filename cwd src_root maildir_root =
     (case relpath cwd maildir_root src_root of
        Inl e \<Rightarrow> Inl e
      | Inr rel \<Rightarrow>
          let name =
            (if rel = ''.'' then ''Inbox''
             else
               let rel' = strip_dots rel;
                   flat = replace_sep rel'
               in if flat = [] then ''Inbox'' else flat)
          in Inr (name @ ''.mbox''))"

section \<open>The source tree\<close>

text \<open>
  The tree under the source root, as the program reads it: a regular file (or anything
  else that is not a directory), a directory with its entries in the order the operating
  system lists them, or a symbolic link to a directory. \<open>os.path.isdir\<close> and
  \<open>os.listdir\<close> follow such a link; \<open>os.walk\<close> lists it among the
  subdirectories and does not descend into it. The names of the entries of a real
  directory are distinct (\<open>wf_node\<close> below). The tree does not change during a run.
\<close>

datatype node = File | Dir "(string \<times> node) list" | DirLink "(string \<times> node) list"

text \<open>\<open>os.scandir\<close>, \<open>os.listdir\<close>: the entries, or the error raised.\<close>

fun scandir :: "node option \<Rightarrow> exn + (string \<times> node) list" where
  "scandir None = Inl FileNotFoundError"
| "scandir (Some File) = Inl NotADirectoryError"
| "scandir (Some (Dir es)) = Inr es"
| "scandir (Some (DirLink es)) = Inr es"

fun isdir :: "node option \<Rightarrow> bool" where
  "isdir (Some (Dir es)) = True"
| "isdir (Some (DirLink es)) = True"
| "isdir other = False"

fun islink :: "node \<Rightarrow> bool" where
  "islink (DirLink es) = True"
| "islink other = False"

text \<open>What \<open>os.path.join(path, name)\<close> denotes, for the directory at \<open>path\<close>.\<close>

definition child :: "node \<Rightarrow> string \<Rightarrow> node option" where
  "child n name = (case scandir (Some n) of Inl e \<Rightarrow> None | Inr es \<Rightarrow> map_of es name)"

text \<open>
  \<open>os.walk(top)\<close>, top-down, with its defaults (\<open>onerror=None\<close>,
  \<open>followlinks=False\<close>): a top that cannot be listed yields nothing; otherwise the top
  comes first, then the walk of every subdirectory that is not a link, in listing order.
  Each path is paired with the directory it denotes, which later lookups by path read.
\<close>

fun os_walk :: "string \<Rightarrow> node \<Rightarrow> (string \<times> node) list" where
  "os_walk tp File = []"
| "os_walk tp (Dir es) =
     (tp, Dir es) #
       concat (map (\<lambda>e. if isdir (Some (snd e)) \<and> \<not> islink (snd e)
                         then os_walk (path_join tp (fst e)) (snd e) else []) es)"
| "os_walk tp (DirLink es) =
     (tp, DirLink es) #
       concat (map (\<lambda>e. if isdir (Some (snd e)) \<and> \<not> islink (snd e)
                         then os_walk (path_join tp (fst e)) (snd e) else []) es)"

section \<open>Folder Locator\<close>

definition is_maildir :: "node \<Rightarrow> bool" where
  "is_maildir n = list_all (\<lambda>d. isdir (child n d)) [''cur'', ''new'', ''tmp'']"

text \<open>\<open>root_node\<close> is what the path \<open>root\<close> denotes, \<open>None\<close> when nothing is there.\<close>

definition find_maildirs :: "string \<Rightarrow> node option \<Rightarrow> (string \<times> node) list" where
  "find_maildirs root root_node =
     (let found = filter (\<lambda>r. is_maildir (snd r))
                    (case root_node of None \<Rightarrow> [] | Some n \<Rightarrow> os_walk root n)
      in sort_key fst found)"

section \<open>The mailbox layer\<close>

text \<open>
  Python's \<open>mailbox\<close> module is the external collaborator. Its state (the files of the
  source folders and of the archives) is a value of an arbitrary type \<open>'w\<close>; every
  operation takes the state and returns its result and the new state, and the
  operations called inside a \<open>try\<close> block may raise. A Maildir object is named by its
  directory, an mbox object by the path of its file. Every call is recorded, with
  whether it returned (\<open>True\<close>) or raised (\<open>False\<close>).
\<close>

datatype 'm payload = Message 'm | MboxMessage string

datatype 'm event =
    Makedirs string
  | Keys string
  | Open_mbox string
  | Get_message string string
  | Get_file string string
  | Add string "'m payload"
  | Flush string
  | Close string

record ('w, 'm) layer =
  os_makedirs :: "string \<Rightarrow> 'w \<Rightarrow> 'w"
  md_keys :: "string \<Rightarrow> 'w \<Rightarrow> string list \<times> 'w"
  mbox_open :: "string \<Rightarrow> 'w \<Rightarrow> 'w"
  md_get_message :: "string \<Rightarrow> string \<Rightarrow> 'w \<Rightarrow> (exn + 'm) \<times> 'w"
  md_get_file :: "string \<Rightarrow> string \<Rightarrow> 'w \<Rightarrow> (exn + string) \<times> 'w"
  mbox_add :: "string \<Rightarrow> 'm payload \<Rightarrow> 'w \<Rightarrow> (exn + unit) \<times> 'w"
  mbox_flush :: "string \<Rightarrow> 'w \<Rightarrow> (exn + unit) \<times> 'w"
  mbox_close :: "string \<Rightarrow> 'w \<Rightarrow> (exn + unit) \<times> 'w"

type_synonym ('w, 'm) state = "'w \<times> ('m event \<times> bool) list"

definition returned :: "exn + 'a \<Rightarrow> bool" where
  "returned r = (case r of Inl e \<Rightarrow> False | Inr v \<Rightarrow> True)"

text \<open>A call that may raise, and one that does not.\<close>

definition call :: "'m event \<Rightarrow> ('w \<Rightarrow> (exn + 'a) \<times> 'w) \<Rightarrow> ('w, 'm) state
    \<Rightarrow> (exn + 'a) \<times> ('w, 'm) state" where
  "call ev f s = (case f (fst s) of (r, w) \<Rightarrow> (r, (w, snd s @ [(ev, returned r)])))"

definition call_total :: "'m event \<Rightarrow> ('w \<Rightarrow> 'a \<times> 'w) \<Rightarrow> ('w, 'm) state
    \<Rightarrow> 'a \<times> ('w, 'm) state" where
  "call_total ev f s = (case f (fst s) of (r, w) \<Rightarrow> (r, (w, snd s @ [(ev, True)])))"

section \<open>Message Transfer Engine\<close>

definition placeholder :: string where
  "placeholder = ''From: conversion-error'' @ [CHR 0x0A] @
     ''Subject: Recovered placeholder'' @ [CHR 0x0A] @ [CHR 0x0A] @
     ''<Failed to read original message in Maildir.>''"

text \<open>The bodies of the first two \<open>try\<close> blocks of \<open>add_with_fallback\<close>.\<close>

definition parsed_copy :: "('w, 'm) layer \<Rightarrow> string \<Rightarrow> string \<Rightarrow> string \<Rightarrow> ('w, 'm) state
    \<Rightarrow> (exn + unit) \<times> ('w, 'm) state" where
  "parsed_copy L mbox_obj md key s =
     (case call (Get_message md key) (md_get_message L md key) s of
        (Inl e, s1) \<Rightarrow> (Inl e, s1)
      | (Inr m, s1) \<Rightarrow> call (Add mbox_obj (Message m)) (mbox_add L mbox_obj (Message m)) s1)"

definition raw_copy :: "('w, 'm) layer \<Rightarrow> string \<Rightarrow> string \<Rightarrow> string \<Rightarrow> ('w, 'm) state
    \<Rightarrow> (exn + unit) \<times> ('w, 'm) state" where
  "raw_copy L mbox_obj md key s =
     (case call (Get_file md key) (md_get_file L md key) s of
        (Inl e, s1) \<Rightarrow> (Inl e, s1)
      | (Inr raw, s1) \<Rightarrow>
          call (Add mbox_obj (MboxMessage raw)) (mbox_add L mbox_obj (MboxMessage raw)) s1)"

definition add_with_fallback :: "('w, 'm) layer \<Rightarrow> string \<Rightarrow> string \<Rightarrow> string
    \<Rightarrow> ('w, 'm) state \<Rightarrow> string \<times> ('w, 'm) state" where
  "add_with_fallback L mbox_obj md key s =
     (case parsed_copy L mbox_obj md key s of
        (Inr u, s1) \<Rightarrow> (''OK'', s1)
      | (Inl e1, s1) \<Rightarrow>
          (case raw_copy L mbox_obj md key s1 of
             (Inr u, s2) \<Rightarrow> (''RAW'', s2)
           | (Inl e2, s2) \<Rightarrow>
               (case call (Add mbox_obj (MboxMessage placeholder))
                       (mbox_add L mbox_obj (MboxMessage placeholder)) s2 of
                  (Inr u, s3) \<Rightarrow> (''RAW'', s3)
                | (Inl e3, s3) \<Rightarrow> (''SKIP'', s3))))"

text \<open>\<open>try: mbox_obj.flush() except Exception: pass\<close>, and the same for \<open>close\<close>.\<close>

definition try_flush :: "('w, 'm) layer \<Rightarrow> string \<Rightarrow> ('w, 'm) state \<Rightarrow> ('w, 'm) state" where
  "try_flush L mbox_obj s = snd (call (Flush mbox_obj) (mbox_flush L mbox_obj) s)"

definition try_close :: "('w, 'm) layer \<Rightarrow> string \<Rightarrow> ('w, 'm) state \<Rightarrow> ('w, 'm) state" where
  "try_close L mbox_obj s = snd (call (Close mbox_obj) (mbox_close L mbox_obj) s)"

record counters =
  count :: nat
  ok :: nat
  raw :: nat
  skip :: nat
  msg_total :: nat

text \<open>
  The loop \<open>for key in keys\<close> of \<open>convert_maildir\<close>. The progress lines it prints are
  not modelled, so \<open>per_message_verbose\<close> and \<open>tick\<close> do not occur.
\<close>

fun message_loop :: "('w, 'm) layer \<Rightarrow> string \<Rightarrow> string \<Rightarrow> string list \<Rightarrow> counters
    \<Rightarrow> ('w, 'm) state \<Rightarrow> counters \<times> ('w, 'm) state" where
  "message_loop L mbox_obj md [] c s = (c, s)"
| "message_loop L mbox_obj md (key # keys) c s =
     (case add_with_fallback L mbox_obj md key s of
        (outcome, s1) \<Rightarrow>
          let c1 = c\<lparr>count := count c + 1, msg_total := msg_total c + 1\<rparr>;
              c2 = (if outcome = ''OK'' then c1\<lparr>ok := ok c1 + 1\<rparr>
                    else if outcome = ''RAW'' then c1\<lparr>raw := raw c1 + 1\<rparr>
                    else c1\<lparr>skip := skip c1 + 1\<rparr>);
              s2 = (if count c2 mod 200 = 0 then try_flush L mbox_obj s1 else s1)
          in message_loop L mbox_obj md keys c2 s2)"

text \<open>The names listed under \<open>cur\<close> and \<open>new\<close>, in that order.\<close>

definition collect_entries :: "node \<Rightarrow> string list" where
  "collect_entries mdir_node =
     concat (map (\<lambda>sub. if isdir (child mdir_node sub)
                         then (case scandir (child mdir_node sub) of
                                 Inl e \<Rightarrow> [] | Inr es \<Rightarrow> map fst es)
                         else []) [''cur'', ''new''])"

text \<open>The keys to process: lines 103 to 108 of the source.\<close>

definition folder_keys :: "('w, 'm) layer \<Rightarrow> string \<Rightarrow> string list \<Rightarrow> ('w, 'm) state
    \<Rightarrow> string list \<times> ('w, 'm) state" where
  "folder_keys L mdir entries s =
     (case call_total (Keys mdir) (md_keys L mdir) s of
        (all_keys, s1) \<Rightarrow>
          let keys = filter (\<lambda>k. k \<in> set entries) all_keys
          in case (if keys = [] then call_total (Keys mdir) (md_keys L mdir) s1
                   else (keys, s1)) of
               (keys', s2) \<Rightarrow> (sort keys', s2))"

text \<open>\<open>os.path.dirname\<close>: up to the last separator, without trailing separators.\<close>

definition dirname :: "string \<Rightarrow> string" where
  "dirname p =
     (let head = rev (dropWhile (\<lambda>c. c \<noteq> sep) (rev p))
      in if head \<noteq> [] \<and> head \<noteq> replicate (length head) sep
         then rev (dropWhile (\<lambda>c. c = sep) (rev head)) else head)"

text \<open>One pass of the loop \<open>for mdir in maildirs\<close>, once \<open>out_path\<close> is known.\<close>

definition convert_folder :: "('w, 'm) layer \<Rightarrow> string \<Rightarrow> string \<Rightarrow> node \<Rightarrow> nat
    \<Rightarrow> ('w, 'm) state \<Rightarrow> counters \<times> ('w, 'm) state" where
  "convert_folder L out_path mdir mdir_node tot s =
     (let s0 = snd (call_total (Makedirs (dirname out_path))
            (\<lambda>w. ((), os_makedirs L (dirname out_path) w)) s);
          entries = collect_entries mdir_node
      in case folder_keys L mdir entries s0 of
           (keys, s1) \<Rightarrow>
             let s2 = snd (call_total (Open_mbox out_path) (\<lambda>w. ((), mbox_open L out_path w)) s1)
             in case message_loop L out_path mdir keys
                       \<lparr>count = 0, ok = 0, raw = 0, skip = 0, msg_total = tot\<rparr> s2 of
                  (c, s3) \<Rightarrow> (c, try_close L out_path (try_flush L out_path s3)))"

fun convert_folders :: "('w, 'm) layer \<Rightarrow> string \<Rightarrow> string \<Rightarrow> string
    \<Rightarrow> (string \<times> node) list \<Rightarrow> nat \<Rightarrow> ('w, 'm) state \<Rightarrow> (exn + nat) \<times> ('w, 'm) state" where
  "convert_folders L cwd root dst_dir [] tot s = (Inr tot, s)"
| "convert_folders L cwd root dst_dir (m # maildirs) tot s =
     (case mbox_filename cwd root (fst m) of
        Inl e \<Rightarrow> (Inl e, s)
      | Inr name \<Rightarrow>
          (case convert_folder L (path_join dst_dir name) (fst m) (snd m) tot s of
             (c, s1) \<Rightarrow> convert_folders L cwd root dst_dir maildirs (msg_total c) s1))"

text \<open>
  \<open>fs\<close> gives what a path denotes. An exception that nothing catches (only
  \<open>os.path.relpath\<close> raises one in this model) ends the function with it.
\<close>

definition convert_maildir :: "('w, 'm) layer \<Rightarrow> string \<Rightarrow> (string \<Rightarrow> node option) \<Rightarrow> string
    \<Rightarrow> string \<Rightarrow> bool \<Rightarrow> nat \<Rightarrow> ('w, 'm) state \<Rightarrow> (exn + nat) \<times> ('w, 'm) state" where
  "convert_maildir L cwd fs root dst_dir per_message_verbose tick s =
     (let maildirs = find_maildirs root (fs root)
      in if maildirs = [] then (Inr 0, s)
         else convert_folders L cwd root dst_dir maildirs 0 s)"

section \<open>The entry point\<close>

text \<open>\<open>str.strip()\<close>, on ASCII whitespace.\<close>

definition is_space :: "char \<Rightarrow> bool" where
  "is_space c = (c \<in> set [CHR '' '', CHR 0x09, CHR 0x0A, CHR 0x0B, CHR 0x0C, CHR 0x0D,
                           CHR 0x1C, CHR 0x1D, CHR 0x1E, CHR 0x1F])"

definition strip :: "string \<Rightarrow> string" where
  "strip s = rev (dropWhile is_space (rev (dropWhile is_space s)))"

text \<open>\<open>choose\<close> (the name is taken in HOL): \<open>line\<close> is what \<open>input(prompt)\<close> returns.\<close>

definition choose_input :: "string \<Rightarrow> string \<Rightarrow> string" where
  "choose_input line dflt = (let v = strip line in if v = [] then dflt else v)"

text \<open>
  \<open>main\<close>, given the three lines typed at its prompts; the result is the exit status of
  the process: the argument of \<open>sys.exit\<close>, 1 for an exception that nothing catches,
  0 when \<open>main\<close> returns.
\<close>

definition main :: "('w, 'm) layer \<Rightarrow> string \<Rightarrow> (string \<Rightarrow> node option) \<Rightarrow> string \<Rightarrow> string
    \<Rightarrow> string \<Rightarrow> ('w, 'm) state \<Rightarrow> nat \<times> ('w, 'm) state" where
  "main L cwd fs src_line dst_line mode_line s =
     (let src = strip (choose_input src_line [])
      in if src = [] then (1, s)
         else if \<not> isdir (fs src) then (1, s)
         else
           let dst = strip (choose_input dst_line [])
           in if dst = [] then (1, s)
              else
                let s1 = snd (call_total (Makedirs dst) (\<lambda>w. ((), os_makedirs L dst w)) s);
                    mode = strip (choose_input mode_line []);
                    per_message_verbose = (mode = ''1'');
                    tick = (if per_message_verbose then 0 else 200)
                in case convert_maildir L cwd fs src dst per_message_verbose tick s1 of
                     (Inl e, s2) \<Rightarrow> (1, s2)
                   | (Inr tot, s2) \<Rightarrow> (if tot = 0 then (2, s2) else (0, s2)))"

section \<open>Notions used in the statements\<close>

text \<open>
  A name a directory entry can have: not empty, without a separator, neither \<open>.\<close>
  nor \<open>..\<close>.
\<close>

definition valid_name :: "string \<Rightarrow> bool" where
  "valid_name n = (n \<noteq> [] \<and> sep \<notin> set n \<and> n \<noteq> ''.'' \<and> n \<noteq> ''..'')"

text \<open>Components as \<open>normpath\<close> leaves them: none empty, none with a separator.\<close>

definition good :: "string list \<Rightarrow> bool" where
  "good cs = (\<forall>c \<in> set cs. c \<noteq> [] \<and> sep \<notin> set c)"

text \<open>The path \<open>abspath\<close> normalises.\<close>

definition abs_input :: "string \<Rightarrow> string \<Rightarrow> string" where
  "abs_input cwd p = (if \<not> startswith p [sep] then path_join cwd p else p)"

text \<open>Traces of calls, and what the statements read off them.\<close>

definition tier1_failed :: "string \<Rightarrow> string \<Rightarrow> string \<Rightarrow> ('m event \<times> bool) list \<Rightarrow> bool" where
  "tier1_failed mbox_obj md key t =
     (t = [(Get_message md key, False)]
      \<or> (\<exists>m. t = [(Get_message md key, True), (Add mbox_obj (Message m), False)]))"

definition tier2_failed :: "string \<Rightarrow> string \<Rightarrow> string \<Rightarrow> ('m event \<times> bool) list \<Rightarrow> bool" where
  "tier2_failed mbox_obj md key t =
     (t = [(Get_file md key, False)]
      \<or> (\<exists>raw. t = [(Get_file md key, True), (Add mbox_obj (MboxMessage raw), False)]))"

type_synonym 'm trace = "('m event \<times> bool) list"

definition transfer_trace :: "string \<Rightarrow> string \<Rightarrow> string \<Rightarrow> string \<Rightarrow> 'm trace \<Rightarrow> bool" where
  "transfer_trace mbox_obj md key outcome t =
     ((outcome = ''OK''
         \<and> (\<exists>m. t = [(Get_message md key, True), (Add mbox_obj (Message m), True)]))
      \<or> (outcome = ''RAW''
         \<and> (\<exists>t1 raw. tier1_failed mbox_obj md key t1
               \<and> t = t1 @ [(Get_file md key, True), (Add mbox_obj (MboxMessage raw), True)]))
      \<or> (\<exists>t1 t2 appended. tier1_failed mbox_obj md key t1 \<and> tier2_failed mbox_obj md key t2
            \<and> t = t1 @ t2 @ [(Add mbox_obj (MboxMessage placeholder), appended)]
            \<and> outcome = (if appended then ''RAW'' else ''SKIP'')))"

fun processed_keys :: "'m trace \<Rightarrow> string list" where
  "processed_keys [] = []"
| "processed_keys ((Get_message md key, b) # t) = key # processed_keys t"
| "processed_keys (e # t) = processed_keys t"

fun written :: "'m trace \<Rightarrow> 'm payload list" where
  "written [] = []"
| "written ((Add mbox_obj p, True) # t) = p # written t"
| "written (e # t) = written t"

fun is_parsed :: "'m payload \<Rightarrow> bool" where
  "is_parsed (Message m) = True"
| "is_parsed (MboxMessage bytes) = False"

fun flush_points :: "nat \<Rightarrow> 'm trace \<Rightarrow> nat list" where
  "flush_points n [] = []"
| "flush_points n ((Get_message md key, b) # t) = flush_points (Suc n) t"
| "flush_points n ((Flush mbox_obj, b) # t) = n # flush_points n t"
| "flush_points n (e # t) = flush_points n t"

fun flush_between_messages :: "bool \<Rightarrow> 'm trace \<Rightarrow> bool" where
  "flush_between_messages flushed [] = True"
| "flush_between_messages flushed ((Flush mbox_obj, b) # t) = flush_between_messages True t"
| "flush_between_messages flushed ((Get_file md key, b) # t) =
     (\<not> flushed \<and> flush_between_messages False t)"
| "flush_between_messages flushed ((Add mbox_obj p, b) # t) =
     (\<not> flushed \<and> flush_between_messages False t)"
| "flush_between_messages flushed (e # t) = flush_between_messages False t"

fun opened :: "'m trace \<Rightarrow> string list" where
  "opened [] = []"
| "opened ((Open_mbox mbox_obj, b) # t) = mbox_obj # opened t"
| "opened (e # t) = opened t"

definition loop_inv :: "counters \<Rightarrow> counters \<Rightarrow> string list \<Rightarrow> 'm trace \<Rightarrow> bool" where
  "loop_inv c c' keys t =
     (processed_keys t = keys \<and> opened t = []
      \<and> count c' = count c + length keys
      \<and> msg_total c' = msg_total c + length keys
      \<and> ok c' = ok c + length (filter is_parsed (written t))
      \<and> raw c' = raw c + length (filter (\<lambda>p. \<not> is_parsed p) (written t))
      \<and> ok c' + raw c' + skip c' = ok c + raw c + skip c + length keys
      \<and> flush_points (count c) t = filter (\<lambda>j. j mod 200 = 0) [Suc (count c)..<Suc (count c')]
      \<and> (\<exists>g. \<forall>f u. flush_between_messages f (t @ u) = flush_between_messages (g f) u))"

definition out_path_of :: "string \<Rightarrow> string \<Rightarrow> string \<Rightarrow> string \<Rightarrow> string" where
  "out_path_of cwd root dst_dir mdir =
     (case mbox_filename cwd root mdir of Inl e \<Rightarrow> [] | Inr name \<Rightarrow> path_join dst_dir name)"

definition folder_inv :: "string \<Rightarrow> nat \<Rightarrow> counters \<Rightarrow> string list \<Rightarrow> 'm trace \<Rightarrow> bool" where
  "folder_inv out_path tot c keys t =
     (processed_keys t = keys \<and> opened t = [out_path]
      \<and> count c = length keys \<and> msg_total c = tot + length keys
      \<and> ok c = length (filter is_parsed (written t))
      \<and> raw c = length (filter (\<lambda>p. \<not> is_parsed p) (written t))
      \<and> ok c + raw c + skip c = length keys
      \<and> flush_points 0 t = filter (\<lambda>j. j mod 200 = 0) [1..<Suc (length keys)] @ [length keys]
      \<and> flush_between_messages False t
      \<and> (\<exists>t0 b1 b2. t = t0 @ [(Flush out_path, b1), (Close out_path, b2)]))"

inductive descends :: "string \<Rightarrow> node \<Rightarrow> string \<Rightarrow> node \<Rightarrow> bool" for root root_node where
  descends_root: "isdir (Some root_node) \<Longrightarrow> descends root root_node root root_node"
| descends_sub: "descends root root_node p d \<Longrightarrow> scandir (Some d) = Inr es
     \<Longrightarrow> (name, c) \<in> set es \<Longrightarrow> isdir (Some c) \<Longrightarrow> \<not> islink c
     \<Longrightarrow> descends root root_node (path_join p name) c"

fun wf_node :: "node \<Rightarrow> bool" where
  "wf_node File = True"
| "wf_node (Dir es) = (distinct (map fst es) \<and> (\<forall>e \<in> set es. wf_node (snd e)))"
| "wf_node (DirLink es) = (distinct (map fst es) \<and> (\<forall>e \<in> set es. wf_node (snd e)))"

inductive same_tree :: "node \<Rightarrow> node \<Rightarrow> bool" where
  same_File: "same_tree File File"
| same_Dir: "list_all2 (\<lambda>e e'. fst e = fst e' \<and> same_tree (snd e) (snd e')) es es''
     \<Longrightarrow> mset es'' = mset es' \<Longrightarrow> same_tree (Dir es) (Dir es')"
| same_DirLink: "list_all2 (\<lambda>e e'. fst e = fst e' \<and> same_tree (snd e) (snd e')) es es''
     \<Longrightarrow> mset es'' = mset es' \<Longrightarrow> same_tree (DirLink es) (DirLink es')"

definition found_paths :: "string \<Rightarrow> node \<Rightarrow> string list" where
  "found_paths tp n = map fst (filter (\<lambda>r. is_maildir (snd r)) (os_walk tp n))"

definition sub_paths :: "string \<Rightarrow> (string \<times> node) list \<Rightarrow> string list" where
  "sub_paths tp es = concat (map (\<lambda>e. if isdir (Some (snd e)) \<and> \<not> islink (snd e)
                         then found_paths (path_join tp (fst e)) (snd e) else []) es)"

text \<open>
  The call an event names, made on a state of the mailbox layer: whether it returned,
  and the state it left. A log replayed from a state gives the state after its calls,
  provided every call ended as the log says; no state otherwise.
\<close>

fun perform :: "('w, 'm) layer \<Rightarrow> 'm event \<Rightarrow> 'w \<Rightarrow> bool \<times> 'w" where
  "perform L (Makedirs p) w = (True, os_makedirs L p w)"
| "perform L (Keys md) w = (True, snd (md_keys L md w))"
| "perform L (Open_mbox f) w = (True, mbox_open L f w)"
| "perform L (Get_message md key) w =
     (case md_get_message L md key w of (r, w') \<Rightarrow> (returned r, w'))"
| "perform L (Get_file md key) w =
     (case md_get_file L md key w of (r, w') \<Rightarrow> (returned r, w'))"
| "perform L (Add f p) w = (case mbox_add L f p w of (r, w') \<Rightarrow> (returned r, w'))"
| "perform L (Flush f) w = (case mbox_flush L f w of (r, w') \<Rightarrow> (returned r, w'))"
| "perform L (Close f) w = (case mbox_close L f w of (r, w') \<Rightarrow> (returned r, w'))"

fun replay :: "('w, 'm) layer \<Rightarrow> 'w \<Rightarrow> 'm trace \<Rightarrow> 'w option" where
  "replay L w [] = Some w"
| "replay L w (e # t) =
     (case perform L (fst e) w of (b, w') \<Rightarrow> if b = snd e then replay L w' t else None)"

text \<open>
  From \<open>s\<close> to \<open>s'\<close> the program made exactly the calls \<open>t\<close>: they were
  added to the log, and the state of the layer in \<open>s'\<close> is the one they left.
\<close>

definition steps :: "('w, 'm) layer \<Rightarrow> ('w, 'm) state \<Rightarrow> ('w, 'm) state \<Rightarrow> 'm trace \<Rightarrow> bool" where
  "steps L s s' t = (snd s' = snd s @ t \<and> replay L (fst s) t = Some (fst s'))"

text \<open>
  The parsed copy fails from the state \<open>w\<close>, leaving \<open>w1\<close> after the calls
  \<open>t\<close>: the read raises, or the append of the message read raises. The same for the
  raw copy, with the bytes read.
\<close>

definition parsed_copy_failed :: "('w, 'm) layer \<Rightarrow> string \<Rightarrow> string \<Rightarrow> string \<Rightarrow> 'w \<Rightarrow> 'w
    \<Rightarrow> 'm trace \<Rightarrow> bool" where
  "parsed_copy_failed L mbox_obj md key w w1 t =
     (case md_get_message L md key w of
        (Inl e, w0) \<Rightarrow> w1 = w0 \<and> t = [(Get_message md key, False)]
      | (Inr m, w0) \<Rightarrow>
          (case mbox_add L mbox_obj (Message m) w0 of
             (Inl e, w2) \<Rightarrow> w1 = w2 \<and> t = [(Get_message md key, True), (Add mbox_obj (Message m), False)]
           | (Inr u, w2) \<Rightarrow> False))"

definition raw_copy_failed :: "('w, 'm) layer \<Rightarrow> string \<Rightarrow> string \<Rightarrow> string \<Rightarrow> 'w \<Rightarrow> 'w
    \<Rightarrow> 'm trace \<Rightarrow> bool" where
  "raw_copy_failed L mbox_obj md key w w1 t =
     (case md_get_file L md key w of
        (Inl e, w0) \<Rightarrow> w1 = w0 \<and> t = [(Get_file md key, False)]
      | (Inr bytes, w0) \<Rightarrow>
          (case mbox_add L mbox_obj (MboxMessage bytes) w0 of
             (Inl e, w2) \<Rightarrow> w1 = w2 \<and> t = [(Get_file md key, True), (Add mbox_obj (MboxMessage bytes), False)]
           | (Inr u, w2) \<Rightarrow> False))"

section \<open>An example\<close>

text \<open>
  A mailbox layer whose state is the list of the archives with the records appended to
  each. The messages named in \<open>unparsable\<close> cannot be parsed, those in
  \<open>unreadable\<close> cannot be read as bytes; no append returns unless \<open>writable\<close>,
  no flush or close unless \<open>syncable\<close>.
\<close>

fun append_to :: "string \<Rightarrow> 'a \<Rightarrow> (string \<times> 'a list) list \<Rightarrow> (string \<times> 'a list) list" where
  "append_to f x [] = [(f, [x])]"
| "append_to f x (e # st) =
     (if fst e = f then (f, snd e @ [x]) # st else e # append_to f x st)"

definition example_layer :: "string list \<Rightarrow> string list \<Rightarrow> bool \<Rightarrow> bool
    \<Rightarrow> ((string \<times> string payload list) list, string) layer" where
  "example_layer unparsable unreadable writable syncable =
     \<lparr>os_makedirs = (\<lambda>p w. w),
      md_keys = (\<lambda>mdir w. (if mdir = ''/m'' then [''m1'']
                            else if mdir = ''/m/.Sent'' then [''m2'']
                            else if mdir = ''/m/Sent'' then [''m3''] else [], w)),
      mbox_open = (\<lambda>f w. if f \<in> set (map fst w) then w else w @ [(f, [])]),
      md_get_message = (\<lambda>mdir key w.
         (if key \<in> set unparsable then Inl (Exception ''parse error'')
          else Inr (''parsed '' @ key), w)),
      md_get_file = (\<lambda>mdir key w.
         (if key \<in> set unreadable then Inl (Exception ''read error'')
          else Inr (''bytes of '' @ key), w)),
      mbox_add = (\<lambda>f p w. if writable then (Inr (), append_to f p w)
                            else (Inl (Exception ''read-only file''), w)),
      mbox_flush = (\<lambda>f w. (if syncable then Inr () else Inl (Exception ''disk full''), w)),
      mbox_close = (\<lambda>f w. (if syncable then Inr () else Inl (Exception ''disk full''), w))\<rparr>"

text \<open>
  A source tree at \<open>/m\<close>: a Maildir at the root and in the subdirectories
  \<open>.Sent\<close> and \<open>Sent\<close>, one message in each; a regular file; and a directory
  \<open>drafts\<close> that lacks \<open>new\<close> and \<open>tmp\<close>. The second tree is the same
  one with its directories listed in another order. Of the other paths, only that of the
  regular file denotes something.
\<close>

definition maildir_with :: "string list \<Rightarrow> (string \<times> node) list" where
  "maildir_with names =
     [(''cur'', Dir (map (\<lambda>n. (n, File)) names)), (''new'', Dir []), (''tmp'', Dir [])]"

definition example_tree :: node where
  "example_tree = Dir (maildir_with [''m1''] @
     [(''.Sent'', Dir (maildir_with [''m2''])), (''Sent'', Dir (maildir_with [''m3''])),
      (''notes'', File), (''drafts'', Dir [(''cur'', Dir [])])])"

definition example_tree_relisted :: node where
  "example_tree_relisted = Dir ([(''drafts'', Dir [(''cur'', Dir [])]), (''notes'', File),
      (''Sent'', Dir (rev (maildir_with [''m3'']))), (''.Sent'', Dir (maildir_with [''m2'']))]
     @ rev (maildir_with [''m1'']))"

definition example_fs :: "string \<Rightarrow> node option" where
  "example_fs p = (if p = ''/m'' then Some example_tree
                   else if p = ''/m/notes'' then Some File else None)"

section \<open>Properties of paths\<close>

lemma split_sep_not_Nil [simp]: "split_sep s \<noteq> []"
  by (induction s) auto

lemma split_sep_free: "sep \<notin> set n \<Longrightarrow> split_sep n = [n]"
  by (induction n) auto

lemma split_sep_append: "split_sep (a @ sep # b) = split_sep a @ split_sep b"
  by (induction a) auto

lemma split_sep_comps_free: "c \<in> set (split_sep s) \<Longrightarrow> sep \<notin> set c"
proof (induction s arbitrary: c)
  case Nil
  then show ?case by simp
next
  case (Cons a s)
  show ?case
  proof (cases "a = sep")
    case True
    with Cons show ?thesis by auto
  next
    case False
    have ne: "split_sep s \<noteq> []" by simp
    then obtain h t where ht: "split_sep s = h # t" by (cases "split_sep s") auto
    with Cons False show ?thesis by auto
  qed
qed

lemma norm_comps_append:
  "norm_comps a (xs @ ys) new = norm_comps a ys (norm_comps a xs new)"
  by (induction xs arbitrary: new) auto

lemma good_butlast: "good cs \<Longrightarrow> good (butlast cs)"
  by (auto simp: good_def dest: in_set_butlastD)

lemma norm_comps_good:
  "good new \<Longrightarrow> (\<forall>c \<in> set cs. sep \<notin> set c) \<Longrightarrow> good (norm_comps a cs new)"
proof (induction cs arbitrary: new)
  case Nil
  then show ?case by simp
next
  case (Cons c cs)
  have g1: "c \<noteq> [] \<Longrightarrow> good (new @ [c])" using Cons.prems by (auto simp: good_def)
  have g2: "good (butlast new)" using Cons.prems good_butlast by blast
  show ?case using Cons.IH[of new] Cons.IH[OF g1] Cons.IH[OF g2] Cons.prems
    by auto
qed

lemma join_sep_Cons: "cs \<noteq> [] \<Longrightarrow> join_sep (c # cs) = c @ sep # join_sep cs"
  by (cases cs) auto

lemma split_join: "good cs \<Longrightarrow> cs \<noteq> [] \<Longrightarrow> split_sep (join_sep cs) = cs"
proof (induction cs)
  case Nil
  then show ?case by simp
next
  case (Cons c cs)
  show ?case
  proof (cases "cs = []")
    case True
    with Cons.prems show ?thesis by (simp add: good_def split_sep_free)
  next
    case False
    have "good cs" using Cons.prems by (simp add: good_def)
    with Cons.IH False have ih: "split_sep (join_sep cs) = cs" by simp
    have "sep \<notin> set c" using Cons.prems by (simp add: good_def)
    then show ?thesis using False ih
      by (simp add: join_sep_Cons split_sep_append split_sep_free)
  qed
qed

lemma lstrip_replicate: "lstrip_sep (replicate n sep @ s) = lstrip_sep s"
  by (induction n) auto

lemma lstrip_join_good: "good cs \<Longrightarrow> lstrip_sep (join_sep cs) = join_sep cs"
proof (cases cs)
  case Nil
  then show ?thesis by simp
next
  case (Cons c cs')
  assume "good cs"
  with Cons obtain x xs where "c = x # xs" "x \<noteq> sep"
    by (cases c) (auto simp: good_def)
  then show ?thesis using Cons by (cases cs') auto
qed

lemma join_sep_Nil_iff: "good cs \<Longrightarrow> join_sep cs = [] \<longleftrightarrow> cs = []"
proof (cases cs)
  case Nil
  then show ?thesis by simp
next
  case (Cons c cs')
  assume "good cs"
  with Cons show ?thesis by (cases cs') (auto simp: good_def)
qed

lemma startswith_sep: "startswith p [sep] \<longleftrightarrow> (p \<noteq> [] \<and> hd p = sep)"
  by (cases p) auto

lemma initial_slashes_pos: "startswith q [sep] \<Longrightarrow> initial_slashes q \<noteq> 0"
  by (simp add: initial_slashes_def)

lemma path_list_norm:
  assumes "startswith q [sep]"
  shows "(let tail = lstrip_sep (normpath q) in if tail = [] then [] else split_sep tail)
           = norm_comps True (split_sep q) []"
proof -
  let ?cs = "norm_comps True (split_sep q) []"
  have g: "good ?cs"
    by (rule norm_comps_good) (auto simp: good_def dest: split_sep_comps_free)
  have q: "q \<noteq> []" using assms by (cases q) auto
  have n: "initial_slashes q \<noteq> 0" using assms by (rule initial_slashes_pos)
  then have np: "normpath q = replicate (initial_slashes q) sep @ join_sep ?cs"
    using q by (simp add: normpath_def Let_def)
  have "lstrip_sep (normpath q) = join_sep ?cs"
    by (simp add: np lstrip_replicate lstrip_join_good[OF g])
  then show ?thesis
    using g by (auto simp: Let_def join_sep_Nil_iff split_join)
qed

lemma abs_input_abs: "startswith cwd [sep] \<Longrightarrow> startswith (abs_input cwd p) [sep]"
  by (cases cwd; cases p) (auto simp: abs_input_def path_join_def)

lemma path_list_eq:
  "startswith cwd [sep] \<Longrightarrow> path_list cwd p = norm_comps True (split_sep (abs_input cwd p)) []"
  using path_list_norm[OF abs_input_abs, of cwd p]
  by (simp add: path_list_def abspath_def abs_input_def)

lemma abs_input_join:
  assumes "startswith cwd [sep]" "p \<noteq> []" "valid_name n"
  shows "abs_input cwd (path_join p n) =
           (if last (abs_input cwd p) = sep then abs_input cwd p @ n
            else abs_input cwd p @ sep # n)"
proof -
  obtain x xs where n: "n = x # xs" "x \<noteq> sep"
    using assms(3) by (cases n) (auto simp: valid_name_def)
  obtain y ys where p: "p = y # ys" using assms(2) by (cases p) auto
  obtain cs where c: "cwd = sep # cs" using assms(1) by (cases cwd) auto
  show ?thesis
    by (auto simp: abs_input_def path_join_def n p c)
qed

lemma abs_input_not_Nil: "startswith cwd [sep] \<Longrightarrow> abs_input cwd p \<noteq> []"
  using abs_input_abs[of cwd p] by (cases "abs_input cwd p") auto

lemma norm_snoc_valid:
  "valid_name n \<Longrightarrow> norm_comps True (xs @ [n]) new = norm_comps True xs new @ [n]"
  by (auto simp: norm_comps_append valid_name_def)

lemma norm_snoc_empty: "norm_comps a (xs @ [[]]) new = norm_comps a xs new"
  by (simp add: norm_comps_append)

lemma norm_split_snoc:
  assumes "valid_name n" "q \<noteq> []"
  shows "norm_comps True (split_sep (if last q = sep then q @ n else q @ sep # n)) []
           = norm_comps True (split_sep q) [] @ [n]"
proof (cases "last q = sep")
  case True
  then obtain q0 where q: "q = q0 @ [sep]" using assms(2)
    by (metis append_butlast_last_id)
  have sf: "sep \<notin> set n" using assms(1) by (simp add: valid_name_def)
  have 1: "split_sep (q @ n) = split_sep q0 @ [n]"
    using split_sep_append[of q0 n] by (simp add: q split_sep_free[OF sf])
  have 2: "split_sep q = split_sep q0 @ [[]]"
    using split_sep_append[of q0 "[]"] by (simp add: q)
  have "norm_comps True (split_sep (q @ n)) [] = norm_comps True (split_sep q) [] @ [n]"
    by (simp only: 1 2 norm_snoc_empty norm_snoc_valid[OF assms(1)])
  then show ?thesis using True by simp
next
  case False
  have sf: "sep \<notin> set n" using assms(1) by (simp add: valid_name_def)
  have "split_sep (q @ sep # n) = split_sep q @ [n]"
    by (simp add: split_sep_append split_sep_free[OF sf])
  then have "norm_comps True (split_sep (q @ sep # n)) [] = norm_comps True (split_sep q) [] @ [n]"
    by (simp only: norm_snoc_valid[OF assms(1)])
  then show ?thesis using False by simp
qed

lemma path_list_join:
  assumes "startswith cwd [sep]" "p \<noteq> []" "valid_name n"
  shows "path_list cwd (path_join p n) = path_list cwd p @ [n]"
  using norm_split_snoc[OF assms(3) abs_input_not_Nil[OF assms(1)], of p]
  by (simp add: path_list_eq[OF assms(1)] abs_input_join[OF assms])

lemma path_join_not_Nil: "p \<noteq> [] \<Longrightarrow> path_join p n \<noteq> []"
  by (auto simp: path_join_def)

lemma foldl_path_join_not_Nil: "p \<noteq> [] \<Longrightarrow> foldl path_join p ns \<noteq> []"
  by (induction ns arbitrary: p) (auto simp: path_join_not_Nil)

lemma path_list_foldl:
  assumes "startswith cwd [sep]"
  shows "p \<noteq> [] \<Longrightarrow> list_all valid_name ns \<Longrightarrow>
    path_list cwd (foldl path_join p ns) = path_list cwd p @ ns"
proof (induction ns arbitrary: p)
  case Nil
  then show ?case by simp
next
  case (Cons n ns)
  have "path_list cwd (foldl path_join (path_join p n) ns) = path_list cwd (path_join p n) @ ns"
    using Cons by (simp add: path_join_not_Nil)
  then show ?case using Cons.prems by (simp add: path_list_join[OF assms])
qed

lemma commonprefix_append [simp]: "commonprefix xs (xs @ ys) = xs"
  by (induction xs) auto

lemma commonprefix_same [simp]: "commonprefix xs xs = xs"
  using commonprefix_append[of xs "[]"] by simp

lemma relpath_below:
  assumes "startswith cwd [sep]" "root \<noteq> []" "ns \<noteq> []" "list_all valid_name ns"
  shows "relpath cwd (foldl path_join root ns) root = Inr (join_sep ns)"
  using assms
  by (simp add: relpath_def Let_def path_list_foldl foldl_path_join_not_Nil)

lemma relpath_self: "p \<noteq> [] \<Longrightarrow> relpath cwd p p = Inr ''.''"
  by (simp add: relpath_def Let_def)

lemma strip_dots_dropWhile: "strip_dots s = dropWhile (\<lambda>c. c = CHR ''.'') s"
  by (induction s) auto

lemma replace_sep_map: "replace_sep s = map (\<lambda>c. if c = sep then CHR ''_'' else c) s"
  by (induction s) auto

lemma join_valid_not_dot:
  assumes "ns \<noteq> []" "list_all valid_name ns"
  shows "join_sep ns \<noteq> ''.''"
proof (cases ns)
  case Nil
  with assms show ?thesis by simp
next
  case (Cons n ns')
  show ?thesis
  proof (cases ns')
    case Nil
    with Cons assms show ?thesis by (simp add: valid_name_def)
  next
    case (Cons m ms)
    have "sep \<in> set (join_sep ns)" using \<open>ns = n # ns'\<close> Cons by simp
    then show ?thesis by (auto simp: sep_def)
  qed
qed


section \<open>Name Mapper: results\<close>

text \<open>
  C2, as the code has it. For a folder below the source root, reached from it through
  the entry names \<open>ns\<close> (its path is the root joined with each name in turn, as
  \<open>os.walk\<close> builds it), the relative path is the names joined by the separator. The
  archive name is that relative path without its leading run of dot characters, every
  separator replaced by an underscore, \<open>Inbox\<close> if nothing is left, followed by
  \<open>.mbox\<close>. Only dot characters at the very front of the relative path are removed:
  a later segment keeps its dot.
\<close>

theorem mbox_filename_below_root:
  assumes "startswith cwd [sep]" "root \<noteq> []" "ns \<noteq> []" "list_all valid_name ns"
  shows "mbox_filename cwd root (foldl path_join root ns) =
    Inr ((let flat = map (\<lambda>c. if c = sep then CHR ''_'' else c)
                      (dropWhile (\<lambda>c. c = CHR ''.'') (join_sep ns))
          in if flat = [] then ''Inbox'' else flat) @ ''.mbox'')"
  using join_valid_not_dot[OF assms(3,4)]
  by (simp add: mbox_filename_def relpath_below[OF assms] Let_def strip_dots_dropWhile
      replace_sep_map)

theorem mbox_filename_below_root_witness:
  "startswith ''/home/u'' [sep] \<and> ''/srv/mail'' \<noteq> [] \<and> [''.Sent''] \<noteq> []
   \<and> list_all valid_name [''.Sent'']
   \<and> mbox_filename ''/home/u'' ''/srv/mail'' (foldl path_join ''/srv/mail'' [''.Sent''])
       = Inr ''Sent.mbox''"
proof -
  have h: "startswith ''/home/u'' [sep]" "''/srv/mail'' \<noteq> []" "[''.Sent''] \<noteq> []"
    "list_all valid_name [''.Sent'']"
    by (simp_all add: sep_def valid_name_def)
  show ?thesis
    using h mbox_filename_below_root[OF h] by (simp add: sep_def)
qed

text \<open>
  C2, as the claim states it, fails: in the relative path \<open>.a/.b\<close> only the first
  segment loses its dot, and the archive is \<open>a_.b.mbox\<close>.
\<close>

theorem mbox_filename_second_dot_kept:
  "strip_dots ''.a/.b'' = ''a/.b''
   \<and> mbox_filename ''/'' ''/r'' ''/r/.a/.b'' = Inr ''a_.b.mbox''"
  by (simp add: mbox_filename_def relpath_def path_list_def abspath_def normpath_def
      initial_slashes_def sep_def path_join_def)

text \<open>
  C9. The Name Mapper is a function of its arguments, so the same inputs give the same
  name. For every source root and every maildir path that is not the empty string it
  returns a name that is not empty followed by \<open>.mbox\<close>, and for the source root
  itself the name is \<open>Inbox.mbox\<close>. The maildir paths of a run are not empty: they
  are the paths the Folder Locator returns for a root that is not empty
  (\<open>find_maildirs_paths_nonempty\<close> below).
\<close>

theorem mbox_filename_nonempty:
  assumes "maildir_root \<noteq> []"
  shows "(\<exists>name. name \<noteq> [] \<and> mbox_filename cwd src_root maildir_root = Inr (name @ ''.mbox''))
     \<and> mbox_filename cwd maildir_root maildir_root = Inr ''Inbox.mbox''"
  using assms
  by (auto simp: mbox_filename_def relpath_self Let_def relpath_def)

theorem mbox_filename_nonempty_witness:
  "''/srv/mail/.Sent'' \<noteq> []
   \<and> mbox_filename ''/home/u'' ''/srv/mail'' ''/srv/mail/.Sent'' = Inr (''Sent'' @ ''.mbox'')
   \<and> mbox_filename ''/home/u'' ''/srv/mail/.Sent'' ''/srv/mail/.Sent'' = Inr ''Inbox.mbox''"
proof -
  have h: "''/srv/mail/.Sent'' \<noteq> []" by simp
  have "mbox_filename ''/home/u'' ''/srv/mail'' ''/srv/mail/.Sent'' = Inr (''Sent'' @ ''.mbox'')"
    by (simp add: mbox_filename_def relpath_def path_list_def abspath_def normpath_def
        initial_slashes_def sep_def path_join_def)
  then show ?thesis
    using h mbox_filename_nonempty[OF h, of "''/home/u''" "''/srv/mail''"] by simp
qed

section \<open>Transfer, folders and discovery: lemmas\<close>

lemma parsed_copy_trace:
  "parsed_copy L mbox_obj md key s = (r, s1) \<Longrightarrow>
     (\<exists>t. snd s1 = snd s @ t \<and>
        (if returned r then (\<exists>m. t = [(Get_message md key, True), (Add mbox_obj (Message m), True)])
         else tier1_failed mbox_obj md key t))"
  by (auto simp: parsed_copy_def call_def returned_def tier1_failed_def
      split: prod.splits sum.splits)

lemma raw_copy_trace:
  "raw_copy L mbox_obj md key s = (r, s1) \<Longrightarrow>
     (\<exists>t. snd s1 = snd s @ t \<and>
        (if returned r then (\<exists>raw. t = [(Get_file md key, True), (Add mbox_obj (MboxMessage raw), True)])
         else tier2_failed mbox_obj md key t))"
  by (auto simp: raw_copy_def call_def returned_def tier2_failed_def
      split: prod.splits sum.splits)

lemma call_trace:
  "call ev f s = (r, s1) \<Longrightarrow> snd s1 = snd s @ [(ev, returned r)]"
  by (auto simp: call_def split: prod.splits)

text \<open>
  C3. The transfer of one message, by the calls of the mailbox layer and the states they
  leave. When the message is read and its parsed copy is appended, the outcome is
  \<open>OK\<close> and no other call is made. When the parsed copy fails (the read raises, or
  the append does), the raw bytes are read in the state that failure left, and when
  those bytes are appended the outcome is \<open>RAW\<close>. When the raw copy fails as well,
  the placeholder is appended in the state it left: the outcome is \<open>RAW\<close> when that
  append returns and \<open>SKIP\<close> when it raises. Each time the state returned is the one
  after the last call, and the log has the calls made, in order. The function always
  returns, with one of the three outcomes; the placeholder begins with the header lines
  \<open>From: conversion-error\<close> and \<open>Subject: Recovered placeholder\<close> and an empty
  line.
\<close>

theorem add_with_fallback_tiers:
  "(\<forall>m w1 u w2.
      md_get_message L md key (fst s) = (Inr m, w1)
      \<and> mbox_add L mbox_obj (Message m) w1 = (Inr u, w2)
      \<longrightarrow> add_with_fallback L mbox_obj md key s =
            (''OK'', (w2, snd s @ [(Get_message md key, True), (Add mbox_obj (Message m), True)])))
   \<and> (\<forall>w1 t1 bytes w2 u w3.
      parsed_copy_failed L mbox_obj md key (fst s) w1 t1
      \<and> md_get_file L md key w1 = (Inr bytes, w2)
      \<and> mbox_add L mbox_obj (MboxMessage bytes) w2 = (Inr u, w3)
      \<longrightarrow> add_with_fallback L mbox_obj md key s =
            (''RAW'', (w3, snd s @ t1 @
               [(Get_file md key, True), (Add mbox_obj (MboxMessage bytes), True)])))
   \<and> (\<forall>w1 t1 w2 t2 r w3.
      parsed_copy_failed L mbox_obj md key (fst s) w1 t1
      \<and> raw_copy_failed L mbox_obj md key w1 w2 t2
      \<and> mbox_add L mbox_obj (MboxMessage placeholder) w2 = (r, w3)
      \<longrightarrow> add_with_fallback L mbox_obj md key s =
            (if returned r then ''RAW'' else ''SKIP'',
             (w3, snd s @ t1 @ t2 @ [(Add mbox_obj (MboxMessage placeholder), returned r)])))
   \<and> fst (add_with_fallback L mbox_obj md key s) \<in> {''OK'', ''RAW'', ''SKIP''}
   \<and> (\<exists>body. placeholder = ''From: conversion-error'' @ [CHR 0x0A] @
          ''Subject: Recovered placeholder'' @ [CHR 0x0A, CHR 0x0A] @ body)"
proof (intro conjI allI impI)
  fix m w1 u w2
  assume "md_get_message L md key (fst s) = (Inr m, w1)
      \<and> mbox_add L mbox_obj (Message m) w1 = (Inr u, w2)"
  then show "add_with_fallback L mbox_obj md key s =
            (''OK'', (w2, snd s @ [(Get_message md key, True), (Add mbox_obj (Message m), True)]))"
    by (simp add: add_with_fallback_def parsed_copy_def call_def returned_def)
next
  fix w1 t1 bytes w2 u w3
  assume "parsed_copy_failed L mbox_obj md key (fst s) w1 t1
      \<and> md_get_file L md key w1 = (Inr bytes, w2)
      \<and> mbox_add L mbox_obj (MboxMessage bytes) w2 = (Inr u, w3)"
  then show "add_with_fallback L mbox_obj md key s =
            (''RAW'', (w3, snd s @ t1 @
               [(Get_file md key, True), (Add mbox_obj (MboxMessage bytes), True)]))"
    by (auto simp: add_with_fallback_def parsed_copy_def raw_copy_def call_def returned_def
        parsed_copy_failed_def split: prod.splits sum.splits)
next
  fix w1 t1 w2 t2 r w3
  assume "parsed_copy_failed L mbox_obj md key (fst s) w1 t1
      \<and> raw_copy_failed L mbox_obj md key w1 w2 t2
      \<and> mbox_add L mbox_obj (MboxMessage placeholder) w2 = (r, w3)"
  then show "add_with_fallback L mbox_obj md key s =
            (if returned r then ''RAW'' else ''SKIP'',
             (w3, snd s @ t1 @ t2 @ [(Add mbox_obj (MboxMessage placeholder), returned r)]))"
    by (cases r)
      (auto simp: add_with_fallback_def parsed_copy_def raw_copy_def call_def returned_def
        parsed_copy_failed_def raw_copy_failed_def split: prod.splits sum.splits)
next
  show "fst (add_with_fallback L mbox_obj md key s) \<in> {''OK'', ''RAW'', ''SKIP''}"
    by (simp add: add_with_fallback_def split: prod.splits sum.splits)
next
  show "\<exists>body. placeholder = ''From: conversion-error'' @ [CHR 0x0A] @
          ''Subject: Recovered placeholder'' @ [CHR 0x0A, CHR 0x0A] @ body"
    by (simp add: placeholder_def)
qed

text \<open>The four outcomes, in the example layer.\<close>

theorem add_with_fallback_tiers_witness:
  "add_with_fallback (example_layer [''m2'', ''m3''] [''m3''] True True)
       ''/out/Inbox.mbox'' ''/m'' ''m1'' ([], [])
     = (''OK'', ([(''/out/Inbox.mbox'', [Message ''parsed m1''])],
          [(Get_message ''/m'' ''m1'', True),
           (Add ''/out/Inbox.mbox'' (Message ''parsed m1''), True)]))
   \<and> add_with_fallback (example_layer [''m2'', ''m3''] [''m3''] True True)
       ''/out/Inbox.mbox'' ''/m'' ''m2'' ([], [])
     = (''RAW'', ([(''/out/Inbox.mbox'', [MboxMessage ''bytes of m2''])],
          [(Get_message ''/m'' ''m2'', False), (Get_file ''/m'' ''m2'', True),
           (Add ''/out/Inbox.mbox'' (MboxMessage ''bytes of m2''), True)]))
   \<and> add_with_fallback (example_layer [''m2'', ''m3''] [''m3''] True True)
       ''/out/Inbox.mbox'' ''/m'' ''m3'' ([], [])
     = (''RAW'', ([(''/out/Inbox.mbox'', [MboxMessage placeholder])],
          [(Get_message ''/m'' ''m3'', False), (Get_file ''/m'' ''m3'', False),
           (Add ''/out/Inbox.mbox'' (MboxMessage placeholder), True)]))
   \<and> add_with_fallback (example_layer [] [] False True)
       ''/out/Inbox.mbox'' ''/m'' ''m1'' ([], [])
     = (''SKIP'', ([],
          [(Get_message ''/m'' ''m1'', True),
           (Add ''/out/Inbox.mbox'' (Message ''parsed m1''), False),
           (Get_file ''/m'' ''m1'', True),
           (Add ''/out/Inbox.mbox'' (MboxMessage ''bytes of m1''), False),
           (Add ''/out/Inbox.mbox'' (MboxMessage placeholder), False)]))"
proof -
  let ?L = "example_layer [''m2'', ''m3''] [''m3''] True True"
  let ?R = "example_layer [] [] False True"
  have 1: "add_with_fallback ?L ''/out/Inbox.mbox'' ''/m'' ''m1'' ([], [])
     = (''OK'', ([(''/out/Inbox.mbox'', [Message ''parsed m1''])],
          [(Get_message ''/m'' ''m1'', True),
           (Add ''/out/Inbox.mbox'' (Message ''parsed m1''), True)]))"
    using add_with_fallback_tiers[of ?L "''/m''" "''m1''" "([], [])" "''/out/Inbox.mbox''"]
    by (simp add: example_layer_def)
  have 2: "add_with_fallback ?L ''/out/Inbox.mbox'' ''/m'' ''m2'' ([], [])
     = (''RAW'', ([(''/out/Inbox.mbox'', [MboxMessage ''bytes of m2''])],
          [(Get_message ''/m'' ''m2'', False), (Get_file ''/m'' ''m2'', True),
           (Add ''/out/Inbox.mbox'' (MboxMessage ''bytes of m2''), True)]))"
    using add_with_fallback_tiers[of ?L "''/m''" "''m2''" "([], [])" "''/out/Inbox.mbox''"]
    by (simp add: example_layer_def parsed_copy_failed_def)
  have 3: "add_with_fallback ?L ''/out/Inbox.mbox'' ''/m'' ''m3'' ([], [])
     = (''RAW'', ([(''/out/Inbox.mbox'', [MboxMessage placeholder])],
          [(Get_message ''/m'' ''m3'', False), (Get_file ''/m'' ''m3'', False),
           (Add ''/out/Inbox.mbox'' (MboxMessage placeholder), True)]))"
    using add_with_fallback_tiers[of ?L "''/m''" "''m3''" "([], [])" "''/out/Inbox.mbox''"]
    by (simp add: example_layer_def parsed_copy_failed_def raw_copy_failed_def returned_def)
  have 4: "add_with_fallback ?R ''/out/Inbox.mbox'' ''/m'' ''m1'' ([], [])
     = (''SKIP'', ([],
          [(Get_message ''/m'' ''m1'', True),
           (Add ''/out/Inbox.mbox'' (Message ''parsed m1''), False),
           (Get_file ''/m'' ''m1'', True),
           (Add ''/out/Inbox.mbox'' (MboxMessage ''bytes of m1''), False),
           (Add ''/out/Inbox.mbox'' (MboxMessage placeholder), False)]))"
    using add_with_fallback_tiers[of ?R "''/m''" "''m1''" "([], [])" "''/out/Inbox.mbox''"]
    by (simp add: example_layer_def parsed_copy_failed_def raw_copy_failed_def returned_def)
  from 1 2 3 4 show ?thesis by (intro conjI)
qed


lemma processed_keys_append: "processed_keys (t @ u) = processed_keys t @ processed_keys u"
  by (induction t rule: processed_keys.induct) auto

lemma written_append: "written (t @ u) = written t @ written u"
  by (induction t rule: written.induct) auto

lemma opened_append: "opened (t @ u) = opened t @ opened u"
  by (induction t rule: opened.induct) auto

lemma flush_points_append:
  "flush_points n (t @ u) = flush_points n t @ flush_points (n + length (processed_keys t)) u"
  by (induction n t rule: flush_points.induct) auto

lemma add_with_fallback_shape:
  assumes "add_with_fallback L mbox_obj md key s = (outcome, s')"
  shows "\<exists>t. snd s' = snd s @ t \<and> transfer_trace mbox_obj md key outcome t"
proof -
  obtain r1 s1 where p: "parsed_copy L mbox_obj md key s = (r1, s1)"
    by (cases "parsed_copy L mbox_obj md key s") auto
  obtain r2 s2 where q: "raw_copy L mbox_obj md key s1 = (r2, s2)"
    by (cases "raw_copy L mbox_obj md key s1") auto
  obtain r3 s3 where c: "call (Add mbox_obj (MboxMessage placeholder))
      (mbox_add L mbox_obj (MboxMessage placeholder)) s2 = (r3, s3)"
    by (cases "call (Add mbox_obj (MboxMessage placeholder))
      (mbox_add L mbox_obj (MboxMessage placeholder)) s2") auto
  from parsed_copy_trace[OF p] obtain t1 where t1: "snd s1 = snd s @ t1"
    "if returned r1 then (\<exists>m. t1 = [(Get_message md key, True), (Add mbox_obj (Message m), True)])
         else tier1_failed mbox_obj md key t1" by blast
  from raw_copy_trace[OF q] obtain t2 where t2: "snd s2 = snd s1 @ t2"
    "if returned r2 then (\<exists>raw. t2 = [(Get_file md key, True), (Add mbox_obj (MboxMessage raw), True)])
         else tier2_failed mbox_obj md key t2" by blast
  note t3 = call_trace[OF c]
  show ?thesis
  proof (cases r1)
    case (Inr u)
    then show ?thesis using assms p t1
      by (auto simp: add_with_fallback_def returned_def transfer_trace_def)
  next
    case e1: (Inl e1)
    show ?thesis
    proof (cases r2)
      case (Inr u)
      then show ?thesis using assms p q e1 t1 t2
        by (auto simp: add_with_fallback_def returned_def transfer_trace_def)
    next
      case e2: (Inl e2)
      show ?thesis
      proof (cases r3)
        case (Inr u)
        then show ?thesis using assms p q c e1 e2 t1 t2 t3
          by (auto simp: add_with_fallback_def returned_def transfer_trace_def)
      next
        case (Inl e3)
        then show ?thesis using assms p q c e1 e2 t1 t2 t3
          by (auto simp: add_with_fallback_def returned_def transfer_trace_def)
      qed
    qed
  qed
qed

lemma written_Add [simp]:
  "written ((Add mbox_obj p, b) # t) = (if b then p # written t else written t)"
  by (cases b) auto

lemma transfer_trace_outcome:
  "transfer_trace mbox_obj md key outcome t \<Longrightarrow> outcome \<in> {''OK'', ''RAW'', ''SKIP''}"
  by (auto simp: transfer_trace_def split: if_splits)

lemma transfer_trace_keys:
  "transfer_trace mbox_obj md key outcome t \<Longrightarrow> processed_keys t = [key]"
  by (auto simp: transfer_trace_def tier1_failed_def tier2_failed_def)

lemma transfer_trace_opened:
  "transfer_trace mbox_obj md key outcome t \<Longrightarrow> opened t = []"
  by (auto simp: transfer_trace_def tier1_failed_def tier2_failed_def)

lemma transfer_trace_flush_points:
  "transfer_trace mbox_obj md key outcome t \<Longrightarrow> flush_points n t = []"
  by (auto simp: transfer_trace_def tier1_failed_def tier2_failed_def)

lemma transfer_trace_written:
  "transfer_trace mbox_obj md key outcome t \<Longrightarrow>
     length (filter is_parsed (written t)) = (if outcome = ''OK'' then 1 else 0)
     \<and> length (filter (\<lambda>p. \<not> is_parsed p) (written t)) = (if outcome = ''RAW'' then 1 else 0)"
  by (auto simp: transfer_trace_def tier1_failed_def tier2_failed_def split: if_splits)

lemma transfer_trace_between:
  "transfer_trace mbox_obj md key outcome t \<Longrightarrow>
     flush_between_messages f (t @ u) = flush_between_messages False u"
  by (auto simp: transfer_trace_def tier1_failed_def tier2_failed_def)

lemma try_flush_trace: "\<exists>b. snd (try_flush L mbox_obj s) = snd s @ [(Flush mbox_obj, b)]"
  by (auto simp: try_flush_def call_def split: prod.splits)

lemma try_close_trace: "\<exists>b. snd (try_close L mbox_obj s) = snd s @ [(Close mbox_obj, b)]"
  by (auto simp: try_close_def call_def split: prod.splits)

lemma message_loop_shape:
  "message_loop L mbox_obj md keys c s = (c', s') \<Longrightarrow>
     \<exists>t. snd s' = snd s @ t \<and> loop_inv c c' keys t"
proof (induction keys arbitrary: c s)
  case Nil
  then show ?case by (auto simp: loop_inv_def)
next
  case (Cons key keys)
  obtain outcome s1 where a: "add_with_fallback L mbox_obj md key s = (outcome, s1)"
    by (cases "add_with_fallback L mbox_obj md key s") auto
  from add_with_fallback_shape[OF a] obtain t1 where
    t1: "snd s1 = snd s @ t1" and tt: "transfer_trace mbox_obj md key outcome t1" by blast
  define c1 where "c1 = c\<lparr>count := count c + 1, msg_total := msg_total c + 1\<rparr>"
  define c2 where "c2 = (if outcome = ''OK'' then c1\<lparr>ok := ok c1 + 1\<rparr>
                    else if outcome = ''RAW'' then c1\<lparr>raw := raw c1 + 1\<rparr>
                    else c1\<lparr>skip := skip c1 + 1\<rparr>)"
  define s2 where "s2 = (if count c2 mod 200 = 0 then try_flush L mbox_obj s1 else s1)"
  define tf where "tf = drop (length (snd s1)) (snd s2)"
  have rec: "message_loop L mbox_obj md keys c2 s2 = (c', s')"
    using Cons.prems a by (auto simp: c1_def c2_def s2_def Let_def split: if_splits)
  from Cons.IH[OF rec] obtain t2 where
    t2: "snd s' = snd s2 @ t2" and inv2: "loop_inv c2 c' keys t2" by blast
  have cnt: "count c2 = Suc (count c)" "msg_total c2 = Suc (msg_total c)"
    by (simp_all add: c1_def c2_def)
  have tf: "snd s2 = snd s1 @ tf"
    "tf = [] \<or> (\<exists>b. tf = [(Flush mbox_obj, b)])"
    "(tf = []) = (Suc (count c) mod 200 \<noteq> 0)"
    using try_flush_trace[of L mbox_obj s1] by (auto simp: tf_def s2_def cnt)
  let ?t = "t1 @ tf @ t2"
  have tr: "snd s' = snd s @ ?t" by (simp add: t1 t2 tf(1))
  have oc: "ok c2 = ok c + (if outcome = ''OK'' then 1 else 0)"
    "raw c2 = raw c + (if outcome = ''RAW'' then 1 else 0)"
    "ok c2 + raw c2 + skip c2 = ok c + raw c + skip c + 1"
    by (simp_all add: c1_def c2_def)
  have wtf: "written tf = []" "processed_keys tf = []" "opened tf = []"
    using tf(2) by auto
  have fp_tf: "flush_points (Suc (count c)) tf = filter (\<lambda>j. j mod 200 = 0) [Suc (count c)]"
    using tf(2,3) by auto
  have upt: "[Suc (count c)..<Suc (count c')] = Suc (count c) # [Suc (count c2)..<Suc (count c')]"
  proof -
    have "count c' = Suc (count c) + length keys" using inv2 by (simp add: loop_inv_def cnt)
    then have "Suc (count c) < Suc (count c')" by simp
    then show ?thesis by (simp only: upt_conv_Cons cnt)
  qed
  have fp2: "flush_points (Suc (count c)) t2
      = filter (\<lambda>j. j mod 200 = 0) [Suc (count c2)..<Suc (count c')]"
    using inv2 by (simp add: loop_inv_def cnt del: upt_Suc)
  have "flush_points (count c) ?t
      = flush_points (Suc (count c)) tf @ flush_points (Suc (count c)) t2"
    by (simp add: flush_points_append transfer_trace_flush_points[OF tt]
        transfer_trace_keys[OF tt] wtf del: upt_Suc)
  also have "\<dots> = filter (\<lambda>j. j mod 200 = 0)
      (Suc (count c) # [Suc (count c2)..<Suc (count c')])"
    by (simp only: fp_tf fp2 filter_append[symmetric] append_Cons append_Nil)
  finally have fp: "flush_points (count c) ?t
      = filter (\<lambda>j. j mod 200 = 0) [Suc (count c)..<Suc (count c')]"
    by (simp only: upt)
  from inv2 obtain g where g: "\<forall>f u. flush_between_messages f (t2 @ u) = flush_between_messages (g f) u"
    by (auto simp: loop_inv_def)
  have fb: "\<exists>h. \<forall>f u. flush_between_messages f (?t @ u) = flush_between_messages (h f) u"
  proof (cases "tf = []")
    case True
    then show ?thesis using g transfer_trace_between[OF tt]
      by (intro exI[of _ "\<lambda>f. g False"]) simp
  next
    case False
    then obtain b where "tf = [(Flush mbox_obj, b)]" using tf(2) by auto
    then show ?thesis using g transfer_trace_between[OF tt]
      by (intro exI[of _ "\<lambda>f. g True"]) simp
  qed
  have rest: "processed_keys ?t = key # keys" "opened ?t = []"
    "count c' = count c + length (key # keys)"
    "msg_total c' = msg_total c + length (key # keys)"
    "ok c' = ok c + length (filter is_parsed (written ?t))"
    "raw c' = raw c + length (filter (\<lambda>p. \<not> is_parsed p) (written ?t))"
    "ok c' + raw c' + skip c' = ok c + raw c + skip c + length (key # keys)"
    using inv2 transfer_trace_written[OF tt] oc
    by (simp_all add: loop_inv_def processed_keys_append opened_append written_append
        transfer_trace_keys[OF tt] transfer_trace_opened[OF tt] wtf cnt del: upt_Suc)
  have "loop_inv c c' (key # keys) ?t"
    unfolding loop_inv_def using rest fp fb by blast
  with tr show ?case by blast
qed

lemma call_total_trace: "snd (snd (call_total ev f s)) = snd s @ [(ev, True)]"
  by (auto simp: call_total_def split: prod.splits)

lemma folder_keys_trace:
  "folder_keys L mdir entries s = (keys, s1) \<Longrightarrow>
     snd s1 = snd s @ [(Keys mdir, True)] \<or> snd s1 = snd s @ [(Keys mdir, True), (Keys mdir, True)]"
  by (auto simp: folder_keys_def call_total_def Let_def split: prod.splits if_splits)

lemma flush_between_messages_tail:
  "flush_between_messages f [(Flush a, b1), (Close a', b2)]"
  by simp

lemma convert_folder_shape:
  assumes "convert_folder L out_path mdir mdir_node tot s = (c, s')"
  shows "\<exists>t. snd s' = snd s @ t
     \<and> folder_inv out_path tot c
         (fst (folder_keys L mdir (collect_entries mdir_node)
                (snd (call_total (Makedirs (dirname out_path))
            (\<lambda>w. ((), os_makedirs L (dirname out_path) w)) s)))) t"
proof -
  define s0 where "s0 = snd (call_total (Makedirs (dirname out_path))
            (\<lambda>w. ((), os_makedirs L (dirname out_path) w)) s)"
  obtain keys s1 where k: "folder_keys L mdir (collect_entries mdir_node) s0 = (keys, s1)"
    by (cases "folder_keys L mdir (collect_entries mdir_node) s0") auto
  define s2 where "s2 = snd (call_total (Open_mbox out_path) (\<lambda>w. ((), mbox_open L out_path w)) s1)"
  define c0 where "c0 = \<lparr>count = 0, ok = 0, raw = 0, skip = 0, msg_total = tot\<rparr>"
  obtain c3 s3 where l: "message_loop L out_path mdir keys c0 s2 = (c3, s3)"
    by (cases "message_loop L out_path mdir keys c0 s2") auto
  have res: "c = c3" "s' = try_close L out_path (try_flush L out_path s3)"
    using assms k l by (simp_all add: convert_folder_def Let_def s0_def s2_def c0_def)
  from message_loop_shape[OF l] obtain tl where
    tl: "snd s3 = snd s2 @ tl" and inv: "loop_inv c0 c3 keys tl" by blast
  obtain b1 where b1: "snd (try_flush L out_path s3) = snd s3 @ [(Flush out_path, b1)]"
    using try_flush_trace by blast
  obtain b2 where b2: "snd s' = snd (try_flush L out_path s3) @ [(Close out_path, b2)]"
    using try_close_trace res(2) by blast
  have t0: "snd s0 = snd s @ [(Makedirs (dirname out_path), True)]"
    by (simp add: s0_def call_total_trace)
  have t2: "snd s2 = snd s1 @ [(Open_mbox out_path, True)]"
    by (simp add: s2_def call_total_trace)
  define tk where "tk = drop (length (snd s0)) (snd s1)"
  have tk: "snd s1 = snd s0 @ tk"
    "tk = [(Keys mdir, True)] \<or> tk = [(Keys mdir, True), (Keys mdir, True)]"
    using folder_keys_trace[OF k] by (auto simp: tk_def)
  define pre where "pre = (Makedirs (dirname out_path), True) # tk @ [(Open_mbox out_path, True)]"
  let ?t = "pre @ tl @ [(Flush out_path, b1), (Close out_path, b2)]"
  have tr: "snd s' = snd s @ ?t"
    by (simp add: b2 b1 tl t2 tk(1) t0 pre_def)
  have pre: "processed_keys pre = []" "opened pre = [out_path]" "written pre = []"
    "flush_points 0 pre = []" "\<And>u. flush_between_messages False (pre @ u) = flush_between_messages False u"
    using tk(2) by (auto simp: pre_def)
  from inv obtain g where g: "\<forall>f u. flush_between_messages f (tl @ u) = flush_between_messages (g f) u"
    by (auto simp: loop_inv_def)
  have c0: "count c0 = 0" "ok c0 = 0" "raw c0 = 0" "skip c0 = 0" "msg_total c0 = tot"
    by (simp_all add: c0_def)
  have cnt: "count c3 = length keys" using inv by (simp add: loop_inv_def c0)
  have fp: "flush_points 0 ?t = filter (\<lambda>j. j mod 200 = 0) [1..<Suc (length keys)] @ [length keys]"
  proof -
    have "flush_points 0 tl = filter (\<lambda>j. j mod 200 = 0) [1..<Suc (length keys)]"
      using inv by (simp add: loop_inv_def c0 cnt del: upt_Suc)
    moreover have "processed_keys tl = keys" using inv by (simp add: loop_inv_def)
    ultimately show ?thesis
      by (simp add: flush_points_append pre del: upt_Suc)
  qed
  have "folder_inv out_path tot c keys ?t"
    unfolding folder_inv_def
    using inv g fp
    by (simp add: loop_inv_def res(1) c0 pre processed_keys_append opened_append
        written_append del: upt_Suc)
  then show ?thesis using tr k by (auto simp: s0_def)
qed

lemma relpath_returns: "path \<noteq> [] \<Longrightarrow> \<exists>rel. relpath cwd path start = Inr rel"
  by (simp add: relpath_def Let_def)

lemma mbox_filename_returns:
  assumes "p \<noteq> []"
  shows "\<exists>name. mbox_filename cwd root p = Inr name"
proof -
  from relpath_returns[OF assms] obtain rel where "relpath cwd p root = Inr rel" by blast
  then show ?thesis by (simp add: mbox_filename_def Let_def)
qed

lemma convert_folders_shape:
  assumes "\<forall>m \<in> set maildirs. fst m \<noteq> []"
    and "convert_folders L cwd root dst_dir maildirs tot s = (r, s')"
  shows "\<exists>t. snd s' = snd s @ t
           \<and> r = Inr (tot + length (processed_keys t))
           \<and> opened t = map (\<lambda>m. out_path_of cwd root dst_dir (fst m)) maildirs"
  using assms
proof (induction maildirs arbitrary: tot s)
  case Nil
  then show ?case by auto
next
  case (Cons m maildirs)
  have "fst m \<noteq> []" using Cons.prems(1) by simp
  then obtain name where n: "mbox_filename cwd root (fst m) = Inr name"
    using mbox_filename_returns by blast
  obtain c s1 where f: "convert_folder L (path_join dst_dir name) (fst m) (snd m) tot s = (c, s1)"
    by (cases "convert_folder L (path_join dst_dir name) (fst m) (snd m) tot s") auto
  from convert_folder_shape[OF f] obtain t1 keys where
    t1: "snd s1 = snd s @ t1" and inv: "folder_inv (path_join dst_dir name) tot c keys t1" by blast
  have rec: "convert_folders L cwd root dst_dir maildirs (msg_total c) s1 = (r, s')"
    using Cons.prems(2) n f by simp
  have "\<forall>m \<in> set maildirs. fst m \<noteq> []" using Cons.prems(1) by simp
  from Cons.IH[OF this rec] obtain t2 where
    t2: "snd s' = snd s1 @ t2" "r = Inr (msg_total c + length (processed_keys t2))"
    "opened t2 = map (\<lambda>m. out_path_of cwd root dst_dir (fst m)) maildirs" by blast
  have "snd s' = snd s @ t1 @ t2" by (simp add: t1 t2(1))
  moreover have "r = Inr (tot + length (processed_keys (t1 @ t2)))"
    using inv t2(2) by (simp add: folder_inv_def processed_keys_append)
  moreover have "opened (t1 @ t2) = map (\<lambda>m. out_path_of cwd root dst_dir (fst m)) (m # maildirs)"
    using inv t2(3) n by (simp add: folder_inv_def opened_append out_path_of_def)
  ultimately show ?case by blast
qed

lemma descends_trans:
  "descends q c p d \<Longrightarrow> descends tp n q c \<Longrightarrow> descends tp n p d"
  by (induction rule: descends.induct) (auto intro: descends.intros)

lemma os_walk_head: "isdir (Some n) \<Longrightarrow> (tp, n) \<in> set (os_walk tp n)"
  by (cases n) auto

lemma os_walk_child:
  assumes "scandir (Some d) = Inr es" "(name, c) \<in> set es" "isdir (Some c)" "\<not> islink c"
  shows "set (os_walk (path_join p name) c) \<subseteq> set (os_walk p d)"
proof (cases d)
  case File
  with assms show ?thesis by simp
next
  case (Dir es')
  with assms have "es' = es" by simp
  with Dir assms show ?thesis by force
next
  case (DirLink es')
  with assms have "es' = es" by simp
  with DirLink assms show ?thesis by force
qed

lemma os_walk_sub: "(p, d) \<in> set (os_walk tp n) \<Longrightarrow> set (os_walk p d) \<subseteq> set (os_walk tp n)"
proof (induction tp n rule: os_walk.induct)
  case (1 tp)
  then show ?case by simp
next
  case (2 tp es)
  show ?case
  proof (cases "(p, d) = (tp, Dir es)")
    case True
    then show ?thesis by simp
  next
    case False
    with "2.prems" obtain e where e: "e \<in> set es" "isdir (Some (snd e)) \<and> \<not> islink (snd e)"
      "(p, d) \<in> set (os_walk (path_join tp (fst e)) (snd e))"
      by (auto split: if_splits)
    from "2.IH"[OF e] have "set (os_walk p d) \<subseteq> set (os_walk (path_join tp (fst e)) (snd e))" .
    also have "\<dots> \<subseteq> set (os_walk tp (Dir es))"
      using e(1,2) by (intro os_walk_child[of _ es "fst e"]) auto
    finally show ?thesis .
  qed
next
  case (3 tp es)
  show ?case
  proof (cases "(p, d) = (tp, DirLink es)")
    case True
    then show ?thesis by simp
  next
    case False
    with "3.prems" obtain e where e: "e \<in> set es" "isdir (Some (snd e)) \<and> \<not> islink (snd e)"
      "(p, d) \<in> set (os_walk (path_join tp (fst e)) (snd e))"
      by (auto split: if_splits)
    from "3.IH"[OF e] have "set (os_walk p d) \<subseteq> set (os_walk (path_join tp (fst e)) (snd e))" .
    also have "\<dots> \<subseteq> set (os_walk tp (DirLink es))"
      using e(1,2) by (intro os_walk_child[of _ es "fst e"]) auto
    finally show ?thesis .
  qed
qed

lemma descends_in_walk: "descends tp n p d \<Longrightarrow> (p, d) \<in> set (os_walk tp n)"
proof (induction rule: descends.induct)
  case descends_root
  then show ?case by (rule os_walk_head)
next
  case (descends_sub p d es name c)
  have "(path_join p name, c) \<in> set (os_walk (path_join p name) c)"
    using descends_sub.hyps by (intro os_walk_head)
  then have "(path_join p name, c) \<in> set (os_walk p d)"
    using os_walk_child[OF descends_sub.hyps(2-5)] by blast
  then show ?case using os_walk_sub[OF descends_sub.IH] by blast
qed

lemma walk_descends: "(p, d) \<in> set (os_walk tp n) \<Longrightarrow> descends tp n p d"
proof (induction tp n arbitrary: p d rule: os_walk.induct)
  case (1 tp)
  then show ?case by simp
next
  case (2 tp es)
  show ?case
  proof (cases "(p, d) = (tp, Dir es)")
    case True
    then show ?thesis by (auto intro: descends_root)
  next
    case False
    with "2.prems" obtain e where e: "e \<in> set es" "isdir (Some (snd e)) \<and> \<not> islink (snd e)"
      "(p, d) \<in> set (os_walk (path_join tp (fst e)) (snd e))"
      by (auto split: if_splits)
    have "descends tp (Dir es) (path_join tp (fst e)) (snd e)"
      using e(1,2) by (intro descends_sub[of _ _ tp "Dir es" es]) (auto intro: descends_root)
    with "2.IH"[OF e] show ?thesis by (rule descends_trans)
  qed
next
  case (3 tp es)
  show ?case
  proof (cases "(p, d) = (tp, DirLink es)")
    case True
    then show ?thesis by (auto intro: descends_root)
  next
    case False
    with "3.prems" obtain e where e: "e \<in> set es" "isdir (Some (snd e)) \<and> \<not> islink (snd e)"
      "(p, d) \<in> set (os_walk (path_join tp (fst e)) (snd e))"
      by (auto split: if_splits)
    have "descends tp (DirLink es) (path_join tp (fst e)) (snd e)"
      using e(1,2) by (intro descends_sub[of _ _ tp "DirLink es" es]) (auto intro: descends_root)
    with "3.IH"[OF e] show ?thesis by (rule descends_trans)
  qed
qed

lemma set_os_walk: "set (os_walk tp n) = {(p, d). descends tp n p d}"
  using walk_descends descends_in_walk by auto

lemma is_maildir_iff:
  "is_maildir d \<longleftrightarrow> isdir (child d ''cur'') \<and> isdir (child d ''new'') \<and> isdir (child d ''tmp'')"
  by (simp add: is_maildir_def)

lemma find_maildirs_set:
  "set (find_maildirs root (Some n)) = {(p, d). descends root n p d \<and> is_maildir d}"
  by (auto simp: find_maildirs_def set_os_walk)

lemma find_maildirs_sorted: "sorted (map fst (find_maildirs root rn))"
  by (simp add: find_maildirs_def)

lemma find_maildirs_mset:
  "mset (find_maildirs root (Some n)) = mset (filter (\<lambda>r. is_maildir (snd r)) (os_walk root n))"
  by (simp add: find_maildirs_def)

lemma map_insort_key: "map f (insort_key f x xs) = insort (f x) (map f xs)"
  by (induction xs) auto

lemma map_sort_key: "map f (sort_key f xs) = sort (map f xs)"
  by (induction xs) (auto simp: map_insort_key)

lemma find_maildirs_paths: "map fst (find_maildirs root (Some n)) = sort (found_paths root n)"
  by (simp add: find_maildirs_def found_paths_def map_sort_key)

lemma sort_mset_cong: "mset xs = mset ys \<Longrightarrow> sort xs = sort (ys :: 'a :: linorder list)"
  by (rule properties_for_sort) simp_all

lemma found_concat:
  "map fst (filter P (concat (map (\<lambda>e. if Q e then W e else []) es)))
     = concat (map (\<lambda>e. if Q e then map fst (filter P (W e)) else []) es)"
  by (induction es) auto

lemma found_paths_Dir:
  "found_paths tp (Dir es) = (if is_maildir (Dir es) then [tp] else []) @ sub_paths tp es"
  "found_paths tp (DirLink es) = (if is_maildir (DirLink es) then [tp] else []) @ sub_paths tp es"
  by (simp_all add: found_paths_def sub_paths_def found_concat cong: if_cong)

lemma sub_paths_Cons:
  "sub_paths tp (e # es) = (if isdir (Some (snd e)) \<and> \<not> islink (snd e)
       then found_paths (path_join tp (fst e)) (snd e) else []) @ sub_paths tp es"
  by (simp add: sub_paths_def)

lemma mset_sub_paths:
  "mset (sub_paths tp es) = (\<Sum>e \<in># mset es. if isdir (Some (snd e)) \<and> \<not> islink (snd e)
                         then mset (found_paths (path_join tp (fst e)) (snd e)) else {#})"
  by (induction es) (auto simp: sub_paths_def)

lemma same_tree_kind: "same_tree t t' \<Longrightarrow> isdir (Some t) = isdir (Some t') \<and> islink t = islink t'"
  by (induction rule: same_tree.induct) auto

lemma map_of_related:
  "list_all2 (\<lambda>e e'. fst e = fst e' \<and> same_tree (snd e) (snd e')) es es'
     \<Longrightarrow> isdir (map_of es d) = isdir (map_of es' d)"
proof (induction rule: list_all2_induct)
  case Nil
  then show ?case by simp
next
  case (Cons e es e' es')
  then show ?case using same_tree_kind[of "snd e" "snd e'"]
    by (cases e; cases e') auto
qed

lemma map_of_mset:
  assumes "mset es'' = mset es'" "distinct (map fst es')"
  shows "map_of es'' = map_of es'"
proof -
  have "mset (map fst es'') = mset (map fst es')" using assms(1) by simp
  then have "distinct (map fst es'')" using assms(2) mset_eq_imp_distinct_iff by blast
  moreover have "set es'' = set es'" using assms(1) by (rule mset_eq_setD)
  ultimately show ?thesis using assms(2) by (simp add: map_of_inject_set)
qed

lemma same_tree_found:
  "same_tree t t' \<Longrightarrow> wf_node t' \<Longrightarrow> mset (found_paths tp t) = mset (found_paths tp t')"
proof (induction arbitrary: tp rule: same_tree.induct)
  case same_File
  then show ?case by simp
next
  case (same_Dir es es'' es')
  have d: "distinct (map fst es')" and w: "\<forall>e \<in> set es'. wf_node (snd e)"
    using same_Dir.prems by auto
  have rel: "list_all2 (\<lambda>e e'. fst e = fst e' \<and> same_tree (snd e) (snd e')) es es''"
    using same_Dir.IH by (rule list_all2_mono) auto
  have m: "is_maildir (Dir es) = is_maildir (Dir es')"
    using map_of_related[OF rel] map_of_mset[OF same_Dir.hyps d]
    by (simp add: is_maildir_def child_def)
  have w'': "\<forall>e \<in> set es''. wf_node (snd e)"
    using w mset_eq_setD[OF same_Dir.hyps] by simp
  have "mset (sub_paths tp es) = mset (sub_paths tp es'')"
    using same_Dir.IH w''
  proof (induction rule: list_all2_induct)
    case Nil
    then show ?case by simp
  next
    case (Cons e es e' es')
    have k: "isdir (Some (snd e)) = isdir (Some (snd e'))" "islink (snd e) = islink (snd e')"
      "fst e = fst e'"
      using Cons.hyps(1) same_tree_kind[of "snd e" "snd e'"] by auto
    have "wf_node (snd e')" using Cons.prems by simp
    then have eq: "mset (found_paths (path_join tp (fst e')) (snd e))
        = mset (found_paths (path_join tp (fst e')) (snd e'))"
      using Cons.hyps(1) by blast
    have ih: "mset (sub_paths tp es) = mset (sub_paths tp es')"
      using Cons.IH Cons.prems by simp
    show ?case
      by (simp add: sub_paths_Cons k eq ih)
  qed
  also have "\<dots> = mset (sub_paths tp es')"
    by (simp only: mset_sub_paths same_Dir.hyps)
  finally show ?case by (simp add: found_paths_Dir m)
next
  case (same_DirLink es es'' es')
  have d: "distinct (map fst es')" and w: "\<forall>e \<in> set es'. wf_node (snd e)"
    using same_DirLink.prems by auto
  have rel: "list_all2 (\<lambda>e e'. fst e = fst e' \<and> same_tree (snd e) (snd e')) es es''"
    using same_DirLink.IH by (rule list_all2_mono) auto
  have m: "is_maildir (DirLink es) = is_maildir (DirLink es')"
    using map_of_related[OF rel] map_of_mset[OF same_DirLink.hyps d]
    by (simp add: is_maildir_def child_def)
  have w'': "\<forall>e \<in> set es''. wf_node (snd e)"
    using w mset_eq_setD[OF same_DirLink.hyps] by simp
  have "mset (sub_paths tp es) = mset (sub_paths tp es'')"
    using same_DirLink.IH w''
  proof (induction rule: list_all2_induct)
    case Nil
    then show ?case by simp
  next
    case (Cons e es e' es')
    have k: "isdir (Some (snd e)) = isdir (Some (snd e'))" "islink (snd e) = islink (snd e')"
      "fst e = fst e'"
      using Cons.hyps(1) same_tree_kind[of "snd e" "snd e'"] by auto
    have "wf_node (snd e')" using Cons.prems by simp
    then have eq: "mset (found_paths (path_join tp (fst e')) (snd e))
        = mset (found_paths (path_join tp (fst e')) (snd e'))"
      using Cons.hyps(1) by blast
    have ih: "mset (sub_paths tp es) = mset (sub_paths tp es')"
      using Cons.IH Cons.prems by simp
    show ?case
      by (simp add: sub_paths_Cons k eq ih)
  qed
  also have "\<dots> = mset (sub_paths tp es')"
    by (simp only: mset_sub_paths same_DirLink.hyps)
  finally show ?case by (simp add: found_paths_Dir m)
qed

lemma find_maildirs_order_free:
  assumes "same_tree t t'" "wf_node t'"
  shows "map fst (find_maildirs root (Some t')) = map fst (find_maildirs root (Some t))"
proof -
  have "mset (found_paths root t') = mset (found_paths root t)"
    using same_tree_found[OF assms, of root] by simp
  then have "sort (found_paths root t') = sort (found_paths root t)"
    by (rule sort_mset_cong)
  then show ?thesis by (simp only: find_maildirs_paths)
qed

section \<open>The log and the layer\<close>

lemma replay_append:
  "replay L w (t @ u) = (case replay L w t of None \<Rightarrow> None | Some w' \<Rightarrow> replay L w' u)"
  by (induction t arbitrary: w) (auto split: prod.splits)

lemma steps_refl: "steps L s s []"
  by (simp add: steps_def)

lemma steps_trans: "steps L s s1 t \<Longrightarrow> steps L s1 s2 u \<Longrightarrow> steps L s s2 (t @ u)"
  by (simp add: steps_def replay_append)

lemma steps_unique: "steps L s s' t \<Longrightarrow> snd s' = snd s @ u \<Longrightarrow> u = t"
  by (simp add: steps_def)

lemma get_message_steps:
  "call (Get_message md key) (md_get_message L md key) s = (r, s')
   \<Longrightarrow> steps L s s' [(Get_message md key, returned r)]"
  by (auto simp: call_def steps_def split: prod.splits)

lemma get_file_steps:
  "call (Get_file md key) (md_get_file L md key) s = (r, s')
   \<Longrightarrow> steps L s s' [(Get_file md key, returned r)]"
  by (auto simp: call_def steps_def split: prod.splits)

lemma add_steps:
  "call (Add f p) (mbox_add L f p) s = (r, s') \<Longrightarrow> steps L s s' [(Add f p, returned r)]"
  by (auto simp: call_def steps_def split: prod.splits)

lemma try_flush_steps: "\<exists>b. steps L s (try_flush L f s) [(Flush f, b)]"
  by (auto simp: try_flush_def call_def steps_def split: prod.splits)

lemma try_close_steps: "\<exists>b. steps L s (try_close L f s) [(Close f, b)]"
  by (auto simp: try_close_def call_def steps_def split: prod.splits)

lemma makedirs_steps:
  "steps L s (snd (call_total (Makedirs p) (\<lambda>w. ((), os_makedirs L p w)) s)) [(Makedirs p, True)]"
  by (simp add: call_total_def steps_def)

lemma open_steps:
  "steps L s (snd (call_total (Open_mbox f) (\<lambda>w. ((), mbox_open L f w)) s)) [(Open_mbox f, True)]"
  by (simp add: call_total_def steps_def)

lemma keys_steps:
  "steps L s (snd (call_total (Keys md) (md_keys L md) s)) [(Keys md, True)]"
  by (simp add: call_total_def steps_def split: prod.splits)

lemma parsed_copy_steps: "parsed_copy L f md key s = (r, s') \<Longrightarrow> \<exists>t. steps L s s' t"
proof -
  assume a: "parsed_copy L f md key s = (r, s')"
  obtain r1 s1 where g: "call (Get_message md key) (md_get_message L md key) s = (r1, s1)"
    by (cases "call (Get_message md key) (md_get_message L md key) s") auto
  show ?thesis
  proof (cases r1)
    case (Inl e)
    with a g have "s' = s1" by (simp add: parsed_copy_def)
    with get_message_steps[OF g] show ?thesis by blast
  next
    case (Inr m)
    with a g have "call (Add f (Message m)) (mbox_add L f (Message m)) s1 = (r, s')"
      by (simp add: parsed_copy_def)
    from steps_trans[OF get_message_steps[OF g] add_steps[OF this]] show ?thesis by blast
  qed
qed

lemma raw_copy_steps: "raw_copy L f md key s = (r, s') \<Longrightarrow> \<exists>t. steps L s s' t"
proof -
  assume a: "raw_copy L f md key s = (r, s')"
  obtain r1 s1 where g: "call (Get_file md key) (md_get_file L md key) s = (r1, s1)"
    by (cases "call (Get_file md key) (md_get_file L md key) s") auto
  show ?thesis
  proof (cases r1)
    case (Inl e)
    with a g have "s' = s1" by (simp add: raw_copy_def)
    with get_file_steps[OF g] show ?thesis by blast
  next
    case (Inr m)
    with a g have "call (Add f (MboxMessage m)) (mbox_add L f (MboxMessage m)) s1 = (r, s')"
      by (simp add: raw_copy_def)
    from steps_trans[OF get_file_steps[OF g] add_steps[OF this]] show ?thesis by blast
  qed
qed

lemma add_with_fallback_steps:
  "add_with_fallback L f md key s = (outcome, s') \<Longrightarrow> \<exists>t. steps L s s' t"
proof -
  assume a: "add_with_fallback L f md key s = (outcome, s')"
  obtain r1 s1 where p: "parsed_copy L f md key s = (r1, s1)"
    by (cases "parsed_copy L f md key s") auto
  obtain r2 s2 where q: "raw_copy L f md key s1 = (r2, s2)"
    by (cases "raw_copy L f md key s1") auto
  obtain r3 s3 where c: "call (Add f (MboxMessage placeholder))
      (mbox_add L f (MboxMessage placeholder)) s2 = (r3, s3)"
    by (cases "call (Add f (MboxMessage placeholder))
      (mbox_add L f (MboxMessage placeholder)) s2") auto
  from parsed_copy_steps[OF p] obtain t1 where t1: "steps L s s1 t1" by blast
  from raw_copy_steps[OF q] obtain t2 where t2: "steps L s1 s2 t2" by blast
  note t3 = add_steps[OF c]
  have "s' = s1 \<or> s' = s2 \<or> s' = s3"
    using a p q c by (auto simp: add_with_fallback_def split: sum.splits)
  then show ?thesis
    using t1 steps_trans[OF t1 t2] steps_trans[OF steps_trans[OF t1 t2] t3] by blast
qed

lemma message_loop_steps:
  "message_loop L f md keys c s = (c', s') \<Longrightarrow> \<exists>t. steps L s s' t"
proof (induction keys arbitrary: c s)
  case Nil
  then show ?case using steps_refl[of L s] by auto
next
  case (Cons key keys)
  obtain outcome s1 where a: "add_with_fallback L f md key s = (outcome, s1)"
    by (cases "add_with_fallback L f md key s") auto
  from add_with_fallback_steps[OF a] obtain t1 where t1: "steps L s s1 t1" by blast
  define c1 where "c1 = c\<lparr>count := count c + 1, msg_total := msg_total c + 1\<rparr>"
  define c2 where "c2 = (if outcome = ''OK'' then c1\<lparr>ok := ok c1 + 1\<rparr>
                    else if outcome = ''RAW'' then c1\<lparr>raw := raw c1 + 1\<rparr>
                    else c1\<lparr>skip := skip c1 + 1\<rparr>)"
  define s2 where "s2 = (if count c2 mod 200 = 0 then try_flush L f s1 else s1)"
  have r: "message_loop L f md keys c2 s2 = (c', s')"
    using Cons.prems a by (auto simp: c1_def c2_def s2_def Let_def split: if_splits)
  from Cons.IH[OF r] obtain t3 where t3: "steps L s2 s' t3" by blast
  have "\<exists>t2. steps L s1 s2 t2"
    using try_flush_steps[of L s1 f] steps_refl[of L s1] by (auto simp: s2_def)
  then obtain t2 where t2: "steps L s1 s2 t2" by blast
  from steps_trans[OF steps_trans[OF t1 t2] t3] show ?case by blast
qed

lemma folder_keys_steps:
  "folder_keys L mdir entries s = (keys, s') \<Longrightarrow> \<exists>t. steps L s s' t"
proof -
  assume a: "folder_keys L mdir entries s = (keys, s')"
  define s1 where "s1 = snd (call_total (Keys mdir) (md_keys L mdir) s)"
  define s2 where "s2 = snd (call_total (Keys mdir) (md_keys L mdir) s1)"
  have 1: "steps L s s1 [(Keys mdir, True)]" unfolding s1_def by (rule keys_steps)
  have 2: "steps L s1 s2 [(Keys mdir, True)]" unfolding s2_def by (rule keys_steps)
  have "s' = s1 \<or> s' = s2"
    using a by (auto simp: folder_keys_def s1_def s2_def Let_def split: prod.splits if_splits)
  then show ?thesis using 1 steps_trans[OF 1 2] by blast
qed

lemma convert_folder_steps:
  "convert_folder L out_path mdir mdir_node tot s = (c, s') \<Longrightarrow> \<exists>t. steps L s s' t"
proof -
  assume a: "convert_folder L out_path mdir mdir_node tot s = (c, s')"
  define s0 where "s0 = snd (call_total (Makedirs (dirname out_path))
            (\<lambda>w. ((), os_makedirs L (dirname out_path) w)) s)"
  obtain keys s1 where k: "folder_keys L mdir (collect_entries mdir_node) s0 = (keys, s1)"
    by (cases "folder_keys L mdir (collect_entries mdir_node) s0") auto
  define s2 where "s2 = snd (call_total (Open_mbox out_path) (\<lambda>w. ((), mbox_open L out_path w)) s1)"
  obtain c3 s3 where m: "message_loop L out_path mdir keys
      \<lparr>count = 0, ok = 0, raw = 0, skip = 0, msg_total = tot\<rparr> s2 = (c3, s3)"
    by (cases "message_loop L out_path mdir keys
      \<lparr>count = 0, ok = 0, raw = 0, skip = 0, msg_total = tot\<rparr> s2") auto
  have e: "s' = try_close L out_path (try_flush L out_path s3)"
    using a k m by (simp add: convert_folder_def Let_def s0_def s2_def)
  have 0: "steps L s s0 [(Makedirs (dirname out_path), True)]"
    unfolding s0_def by (rule makedirs_steps)
  from folder_keys_steps[OF k] obtain t1 where 1: "steps L s0 s1 t1" by blast
  have 2: "steps L s1 s2 [(Open_mbox out_path, True)]" unfolding s2_def by (rule open_steps)
  from message_loop_steps[OF m] obtain t3 where 3: "steps L s2 s3 t3" by blast
  from try_flush_steps[of L s3 out_path] obtain b1
    where 4: "steps L s3 (try_flush L out_path s3) [(Flush out_path, b1)]" by blast
  from try_close_steps[of L "try_flush L out_path s3" out_path] obtain b2
    where 5: "steps L (try_flush L out_path s3) s' [(Close out_path, b2)]" unfolding e by blast
  from steps_trans[OF steps_trans[OF steps_trans[OF steps_trans[OF steps_trans[OF 0 1] 2] 3] 4] 5]
  show ?thesis by blast
qed

lemma convert_folders_steps:
  "convert_folders L cwd root dst_dir maildirs tot s = (r, s') \<Longrightarrow> \<exists>t. steps L s s' t"
proof (induction maildirs arbitrary: tot s)
  case Nil
  then show ?case using steps_refl[of L s] by auto
next
  case (Cons m maildirs)
  show ?case
  proof (cases "mbox_filename cwd root (fst m)")
    case (Inl e)
    with Cons.prems show ?thesis using steps_refl[of L s] by auto
  next
    case (Inr name)
    obtain c s1 where f: "convert_folder L (path_join dst_dir name) (fst m) (snd m) tot s = (c, s1)"
      by (cases "convert_folder L (path_join dst_dir name) (fst m) (snd m) tot s") auto
    from convert_folder_steps[OF f] obtain t1 where 1: "steps L s s1 t1" by blast
    have "convert_folders L cwd root dst_dir maildirs (msg_total c) s1 = (r, s')"
      using Cons.prems Inr f by simp
    from Cons.IH[OF this] obtain t2 where 2: "steps L s1 s' t2" by blast
    from steps_trans[OF 1 2] show ?thesis by blast
  qed
qed

lemma convert_maildir_steps:
  "convert_maildir L cwd fs root dst_dir per_message_verbose tick s = (r, s')
   \<Longrightarrow> \<exists>t. steps L s s' t"
  using steps_refl[of L s] convert_folders_steps[of L cwd root dst_dir _ 0 s r s']
  by (auto simp: convert_maildir_def Let_def split: if_splits)


lemma os_walk_paths_nonempty: "tp \<noteq> [] \<Longrightarrow> (p, d) \<in> set (os_walk tp n) \<Longrightarrow> p \<noteq> []"
proof (induction tp n arbitrary: p d rule: os_walk.induct)
  case (1 tp)
  then show ?case by simp
next
  case (2 tp es)
  then show ?case by (auto simp: path_join_not_Nil split: if_splits)
next
  case (3 tp es)
  then show ?case by (auto simp: path_join_not_Nil split: if_splits)
qed

lemma find_maildirs_paths_nonempty:
  "root \<noteq> [] \<Longrightarrow> \<forall>m \<in> set (find_maildirs root rn). fst m \<noteq> []"
  by (cases rn) (auto simp: find_maildirs_def dest: os_walk_paths_nonempty)

lemma convert_maildir_shape:
  assumes "root \<noteq> []"
    and "convert_maildir L cwd fs root dst_dir per_message_verbose tick s = (r, s')"
  shows "\<exists>t. snd s' = snd s @ t \<and> r = Inr (length (processed_keys t))
           \<and> opened t = map (\<lambda>m. out_path_of cwd root dst_dir (fst m)) (find_maildirs root (fs root))"
proof (cases "find_maildirs root (fs root) = []")
  case True
  with assms(2) show ?thesis by (simp add: convert_maildir_def)
next
  case False
  with assms(2) have "convert_folders L cwd root dst_dir (find_maildirs root (fs root)) 0 s = (r, s')"
    by (simp add: convert_maildir_def Let_def)
  from convert_folders_shape[OF find_maildirs_paths_nonempty[OF assms(1)] this] show ?thesis by simp
qed

lemma length_written_split:
  "length (filter is_parsed ps) + length (filter (\<lambda>p. \<not> is_parsed p) ps) = length ps"
  by (induction ps) auto

lemma same_tree_refl: "same_tree n n"
proof (induction n)
  case File
  show ?case by (rule same_File)
next
  case (Dir es)
  have "list_all2 (\<lambda>e e'. fst e = fst e' \<and> same_tree (snd e) (snd e')) es es"
    using Dir by (auto simp: list_all2_same)
  then show ?case by (rule same_Dir) simp
next
  case (DirLink es)
  have "list_all2 (\<lambda>e e'. fst e = fst e' \<and> same_tree (snd e) (snd e')) es es"
    using DirLink by (auto simp: list_all2_same)
  then show ?case by (rule same_DirLink) simp
qed

lemma same_tree_relisted: "mset es = mset es' \<Longrightarrow> same_tree (Dir es) (Dir es')"
proof -
  assume a: "mset es = mset es'"
  have "list_all2 (\<lambda>e e'. fst e = fst e' \<and> same_tree (snd e) (snd e')) es es"
    by (simp add: list_all2_same same_tree_refl)
  then show ?thesis using a by (rule same_Dir)
qed

section \<open>Key selection\<close>

text \<open>
  C5. The keys of a folder. The names collected are those listed under \<open>cur\<close> and
  \<open>new\<close>, where these are directories. The mailbox layer is asked for its keys;
  those among the names collected are kept, and when none is, the layer is asked again
  and all its keys are taken. The list processed is sorted and has exactly these keys;
  the layer is left in the state after the one call, or after the two.
\<close>

theorem folder_keys_selection:
  "(case md_keys L mdir (fst s) of
     (all_keys, w1) \<Rightarrow>
       (case folder_keys L mdir (collect_entries mdir_node) s of
          (keys, s') \<Rightarrow>
            sorted keys
            \<and> mset keys =
                (if filter (\<lambda>k. k \<in> set (collect_entries mdir_node)) all_keys \<noteq> []
                 then mset (filter (\<lambda>k. k \<in> set (collect_entries mdir_node)) all_keys)
                 else mset (fst (md_keys L mdir w1)))
            \<and> fst s' =
                (if filter (\<lambda>k. k \<in> set (collect_entries mdir_node)) all_keys \<noteq> []
                 then w1 else snd (md_keys L mdir w1))
            \<and> replay L (fst s) (drop (length (snd s)) (snd s')) = Some (fst s')))
   \<and> set (collect_entries mdir_node) =
       {name. \<exists>sub es. sub \<in> {''cur'', ''new''} \<and> scandir (child mdir_node sub) = Inr es
                 \<and> name \<in> fst ` set es}"
proof -
  have e: "set (collect_entries mdir_node) =
           {name. \<exists>sub es. sub \<in> {''cur'', ''new''} \<and> scandir (child mdir_node sub) = Inr es
                     \<and> name \<in> fst ` set es}"
  proof -
    have a: "set (if isdir (child mdir_node sub)
                  then (case scandir (child mdir_node sub) of
                          Inl e \<Rightarrow> [] | Inr es \<Rightarrow> map fst es)
                  else [])
             = {name. \<exists>es. scandir (child mdir_node sub) = Inr es \<and> name \<in> fst ` set es}"
      for sub
      by (cases "child mdir_node sub" rule: isdir.cases) auto
    have "set (collect_entries mdir_node) =
            {name. \<exists>es. scandir (child mdir_node ''cur'') = Inr es \<and> name \<in> fst ` set es}
          \<union> {name. \<exists>es. scandir (child mdir_node ''new'') = Inr es \<and> name \<in> fst ` set es}"
      unfolding collect_entries_def by (simp only: list.map concat.simps set_append a append_Nil2)
    also have "\<dots> = {name. \<exists>sub es. sub \<in> {''cur'', ''new''} \<and> scandir (child mdir_node sub) = Inr es
                     \<and> name \<in> fst ` set es}"
      by blast
    finally show ?thesis .
  qed
  have k: "case md_keys L mdir (fst s) of
     (all_keys, w1) \<Rightarrow>
       (case folder_keys L mdir (collect_entries mdir_node) s of
          (keys, s') \<Rightarrow>
            sorted keys
            \<and> mset keys =
                (if filter (\<lambda>k. k \<in> set (collect_entries mdir_node)) all_keys \<noteq> []
                 then mset (filter (\<lambda>k. k \<in> set (collect_entries mdir_node)) all_keys)
                 else mset (fst (md_keys L mdir w1)))
            \<and> fst s' =
                (if filter (\<lambda>k. k \<in> set (collect_entries mdir_node)) all_keys \<noteq> []
                 then w1 else snd (md_keys L mdir w1))
            \<and> replay L (fst s) (drop (length (snd s)) (snd s')) = Some (fst s'))"
    by (auto simp: folder_keys_def call_total_def Let_def split: prod.splits)
  from k e show ?thesis by (rule conjI)
qed

section \<open>Counters of a folder\<close>

text \<open>
  C7. After a folder is processed, \<open>count\<close> is the sum of \<open>ok\<close>, \<open>raw\<close>
  and \<open>skip\<close>, and the running total has grown by \<open>count\<close>. The calls made
  are those of the log, on the layer itself; one transfer was started for each key
  selected for the folder, in order, so that \<open>count\<close> is the number of keys;
  \<open>ok\<close> counts the parsed copies appended, \<open>raw\<close> the raw copies and
  placeholders appended, \<open>skip\<close> the keys for which nothing was appended.
\<close>

theorem folder_counters:
  "case convert_folder L out_path mdir mdir_node tot s of
     (c, s') \<Rightarrow>
       count c = ok c + raw c + skip c
       \<and> msg_total c = tot + count c
       \<and> (\<exists>t. snd s' = snd s @ t \<and> replay L (fst s) t = Some (fst s')
            \<and> processed_keys t =
                fst (folder_keys L mdir (collect_entries mdir_node)
                      (os_makedirs L (dirname out_path) (fst s),
                       snd s @ [(Makedirs (dirname out_path), True)]))
            \<and> count c = length (processed_keys t)
            \<and> ok c = length (filter is_parsed (written t))
            \<and> raw c = length (filter (\<lambda>p. \<not> is_parsed p) (written t))
            \<and> skip c = length (processed_keys t) - length (written t))"
proof -
  obtain c s' where r: "convert_folder L out_path mdir mdir_node tot s = (c, s')"
    by (cases "convert_folder L out_path mdir mdir_node tot s") auto
  have s0: "snd (call_total (Makedirs (dirname out_path))
            (\<lambda>w. ((), os_makedirs L (dirname out_path) w)) s)
        = (os_makedirs L (dirname out_path) (fst s),
                       snd s @ [(Makedirs (dirname out_path), True)])"
    by (simp add: call_total_def)
  from convert_folder_shape[OF r] obtain t where t:
    "snd s' = snd s @ t"
    "folder_inv out_path tot c
         (fst (folder_keys L mdir (collect_entries mdir_node)
                (os_makedirs L (dirname out_path) (fst s),
                       snd s @ [(Makedirs (dirname out_path), True)]))) t"
    unfolding s0 by blast
  from convert_folder_steps[OF r] obtain u where u: "steps L s s' u" by blast
  from steps_unique[OF u t(1)] u have p: "replay L (fst s) t = Some (fst s')"
    by (simp add: steps_def)
  define K where "K = fst (folder_keys L mdir (collect_entries mdir_node)
                (os_makedirs L (dirname out_path) (fst s),
                       snd s @ [(Makedirs (dirname out_path), True)]))"
  have f: "processed_keys t = K" "count c = length K" "msg_total c = tot + length K"
    "ok c = length (filter is_parsed (written t))"
    "raw c = length (filter (\<lambda>p. \<not> is_parsed p) (written t))"
    "ok c + raw c + skip c = length K"
    using t(2) unfolding folder_inv_def K_def by blast+
  have sk: "skip c = length (processed_keys t) - length (written t)"
    using f(4,5,6) length_written_split[of "written t"] unfolding f(1) by linarith
  have "count c = ok c + raw c + skip c \<and> msg_total c = tot + count c
       \<and> (snd s' = snd s @ t \<and> replay L (fst s) t = Some (fst s')
            \<and> processed_keys t = K
            \<and> count c = length (processed_keys t)
            \<and> ok c = length (filter is_parsed (written t))
            \<and> raw c = length (filter (\<lambda>p. \<not> is_parsed p) (written t))
            \<and> skip c = length (processed_keys t) - length (written t))"
    using f sk t(1) p by simp
  then show ?thesis unfolding r K_def by blast
qed

section \<open>Flushing and closing\<close>




section \<open>Folder Locator: results\<close>

text \<open>
  C6. For a root that is a directory, the Folder Locator returns exactly the
  directories reached from the root by descending through directories that are not
  links, the root included, in which \<open>cur\<close>, \<open>new\<close> and \<open>tmp\<close> are
  directories; each as often as the walk meets it; sorted by path. The list of paths is
  the same for the tree listed in any other order, so that a second run on the unchanged
  tree returns it again.
\<close>

theorem find_maildirs_exact:
  "set (find_maildirs root (Some n)) =
      {(p, d). descends root n p d
         \<and> isdir (child d ''cur'') \<and> isdir (child d ''new'') \<and> isdir (child d ''tmp'')}
   \<and> mset (find_maildirs root (Some n)) = mset (filter (\<lambda>r. is_maildir (snd r)) (os_walk root n))
   \<and> sorted (map fst (find_maildirs root (Some n)))
   \<and> (\<forall>n'. same_tree n n' \<and> wf_node n' \<longrightarrow>
         map fst (find_maildirs root (Some n')) = map fst (find_maildirs root (Some n)))"
  using find_maildirs_set[of root n] find_maildirs_order_free[of n _ root]
  by (simp add: is_maildir_iff find_maildirs_sorted find_maildirs_mset)

theorem find_maildirs_exact_witness:
  "same_tree example_tree example_tree_relisted \<and> wf_node example_tree_relisted
   \<and> map fst (find_maildirs ''/m'' (Some example_tree_relisted))
       = map fst (find_maildirs ''/m'' (Some example_tree))
   \<and> map fst (find_maildirs ''/m'' (Some example_tree)) = [''/m'', ''/m/.Sent'', ''/m/Sent'']"
proof -
  have s3: "same_tree (Dir (maildir_with [''m3''])) (Dir (rev (maildir_with [''m3''])))"
    by (rule same_tree_relisted) simp
  have st: "same_tree example_tree example_tree_relisted"
    unfolding example_tree_def example_tree_relisted_def
    apply (rule same_Dir[where es'' = "maildir_with [''m1''] @
       [(''.Sent'', Dir (maildir_with [''m2''])), (''Sent'', Dir (rev (maildir_with [''m3'']))),
        (''notes'', File), (''drafts'', Dir [(''cur'', Dir [])])]"])
     apply (simp add: maildir_with_def same_tree_refl s3[unfolded maildir_with_def, simplified])
    apply (simp add: maildir_with_def)
    done
  have wf: "wf_node example_tree_relisted"
    by (simp add: example_tree_relisted_def maildir_with_def)
  have v: "map fst (find_maildirs ''/m'' (Some example_tree)) = [''/m'', ''/m/.Sent'', ''/m/Sent'']"
    by code_simp
  have "map fst (find_maildirs ''/m'' (Some example_tree_relisted))
       = map fst (find_maildirs ''/m'' (Some example_tree))"
    using find_maildirs_exact[of "''/m''" example_tree] st wf by blast
  with st wf v show ?thesis by (intro conjI)
qed


text \<open>
  C4, as the code has it. For a root that does not exist or is not a directory, the
  Folder Locator returns the empty list: \<open>os.walk\<close> ignores the error of the listing.
  \<open>convert_maildir\<close> then returns 0 and calls nothing, and \<open>main\<close>, which checks
  the source first, ends with status 1 and calls nothing.
\<close>

theorem find_maildirs_not_a_directory:
  "(\<not> isdir root_node \<longrightarrow> find_maildirs root root_node = [])
   \<and> (\<not> isdir (fs root) \<longrightarrow>
        convert_maildir L cwd fs root dst_dir per_message_verbose tick s = (Inr 0, s))
   \<and> (\<not> isdir (fs (strip (choose_input src_line []))) \<longrightarrow>
        main L cwd fs src_line dst_line mode_line s = (1, s))"
proof -
  have a: "find_maildirs r n = []" if "\<not> isdir n" for r n
    using that by (cases n rule: isdir.cases) (auto simp: find_maildirs_def)
  show ?thesis
    by (auto simp: a convert_maildir_def main_def Let_def)
qed

theorem find_maildirs_not_a_directory_witness:
  "\<not> isdir (example_fs ''/m/notes'')
   \<and> find_maildirs ''/m/notes'' (example_fs ''/m/notes'') = []
   \<and> convert_maildir (example_layer [] [] True True) ''/'' example_fs ''/m/notes'' ''/out''
        False 200 ([], []) = (Inr 0, ([], []))
   \<and> \<not> isdir (example_fs (strip (choose_input '' /nowhere '' [])))
   \<and> main (example_layer [] [] True True) ''/'' example_fs '' /nowhere '' ''/out'' [] ([], [])
        = (1, ([], []))"
proof -
  have 1: "\<not> isdir (example_fs ''/m/notes'')" by (simp add: example_fs_def)
  have 2: "\<not> isdir (example_fs (strip (choose_input '' /nowhere '' [])))"
    by (simp add: example_fs_def strip_def choose_input_def is_space_def Let_def)
  show ?thesis
    using 1 2
      find_maildirs_not_a_directory[of "example_fs ''/m/notes''" "''/m/notes''" example_fs
        "example_layer [] [] True True" "''/''" "''/out''" False 200 "([], [])"
        "'' /nowhere ''" "''/out''" "[]"]
    by simp
qed

text \<open>
  C4, as the claim states it, fails: listing a root that does not exist raises, and the
  Folder Locator returns a result all the same.
\<close>

theorem find_maildirs_missing_root_returns:
  "scandir None = Inl FileNotFoundError \<and> find_maildirs ''/nowhere'' None = []"
  by (simp add: find_maildirs_def)

section \<open>Name collisions\<close>

text \<open>
  C10. The Name Mapper gives \<open>.Sent\<close> and \<open>Sent\<close> the same name, and
  \<open>a/b\<close> and \<open>a_b\<close> too. In the example tree the Maildirs \<open>.Sent\<close> and
  \<open>Sent\<close> are both found, and after the run their messages are in the one archive
  \<open>Sent.mbox\<close>.
\<close>

theorem mbox_filename_not_injective:
  "''/m/.Sent'' \<noteq> ''/m/Sent''
   \<and> mbox_filename ''/'' ''/m'' ''/m/.Sent'' = Inr ''Sent.mbox''
   \<and> mbox_filename ''/'' ''/m'' ''/m/Sent'' = Inr ''Sent.mbox''
   \<and> ''/m/a/b'' \<noteq> ''/m/a_b''
   \<and> mbox_filename ''/'' ''/m'' ''/m/a/b'' = Inr ''a_b.mbox''
   \<and> mbox_filename ''/'' ''/m'' ''/m/a_b'' = Inr ''a_b.mbox''
   \<and> map fst (find_maildirs ''/m'' (example_fs ''/m'')) = [''/m'', ''/m/.Sent'', ''/m/Sent'']
   \<and> fst (snd (convert_maildir (example_layer [] [] True True) ''/'' example_fs ''/m'' ''/out''
                  False 200 ([], [])))
      = [(''/out/Inbox.mbox'', [Message ''parsed m1'']),
         (''/out/Sent.mbox'', [Message ''parsed m2'', Message ''parsed m3''])]"
  by code_simp

section \<open>Exit status\<close>

text \<open>
  C1, as the code has it. The status is 1 when the source is missing or is not a
  directory, or the destination is missing. Otherwise it is 2 when no message was
  processed (no Maildir found, or no key in any), and 0 when at least one was, whatever
  its outcome.
\<close>

theorem main_exit_status:
  "case main L cwd fs src_line dst_line mode_line s of
     (status, s') \<Rightarrow>
       (\<exists>t. snd s' = snd s @ t \<and> replay L (fst s) t = Some (fst s')
          \<and> status =
              (if strip (choose_input src_line []) \<noteq> []
                  \<and> isdir (fs (strip (choose_input src_line [])))
                  \<and> strip (choose_input dst_line []) \<noteq> []
               then (if processed_keys t = [] then 2 else 0)
               else 1))"
proof (cases "strip (choose_input src_line []) \<noteq> []
                  \<and> isdir (fs (strip (choose_input src_line [])))
                  \<and> strip (choose_input dst_line []) \<noteq> []")
  case False
  then have "main L cwd fs src_line dst_line mode_line s = (1, s)"
    by (auto simp: main_def Let_def)
  with False show ?thesis by auto
next
  case True
  define src where "src = strip (choose_input src_line [])"
  define dst where "dst = strip (choose_input dst_line [])"
  define s1 where "s1 = snd (call_total (Makedirs dst) (\<lambda>w. ((), os_makedirs L dst w)) s)"
  define v where "v = (strip (choose_input mode_line []) = ''1'')"
  obtain r s2 where c: "convert_maildir L cwd fs src dst v (if v then 0 else 200) s1 = (r, s2)"
    by (cases "convert_maildir L cwd fs src dst v (if v then 0 else 200) s1") auto
  have ne: "src \<noteq> []" using True by (simp add: src_def)
  from convert_maildir_shape[OF ne c] obtain t2 where t2: "snd s2 = snd s1 @ t2"
    "r = Inr (length (processed_keys t2))" by blast
  from convert_maildir_steps[OF c] obtain u2 where u2: "steps L s1 s2 u2" by blast
  have e2: "u2 = t2" using steps_unique[OF u2 t2(1)] by simp
  have 0: "steps L s s1 [(Makedirs dst, True)]" unfolding s1_def by (rule makedirs_steps)
  note st = steps_trans[OF 0 u2[unfolded e2]]
  have m: "main L cwd fs src_line dst_line mode_line s
            = (if length (processed_keys t2) = 0 then 2 else 0, s2)"
    using True c t2(2)
    by (simp add: main_def Let_def src_def[symmetric] dst_def[symmetric] s1_def[symmetric]
        v_def[symmetric])
  have "snd s2 = snd s @ ([(Makedirs dst, True)] @ t2)
        \<and> replay L (fst s) ([(Makedirs dst, True)] @ t2) = Some (fst s2)
        \<and> processed_keys ([(Makedirs dst, True)] @ t2) = processed_keys t2"
    using st by (simp add: steps_def)
  then show ?thesis using True unfolding m by (auto simp del: replay.simps)
qed

text \<open>
  A run on two archives that exist, empty, and in which no append returns: every message
  is skipped, both archives stay empty, and the status is 0.
\<close>

theorem main_all_skipped_exits_0:
  "main (example_layer [] [] False True) ''/'' example_fs ''/m'' ''/out'' []
       ([(''/out/Inbox.mbox'', []), (''/out/Sent.mbox'', [])], []) =
     (0, ([(''/out/Inbox.mbox'', []), (''/out/Sent.mbox'', [])],
       [(Makedirs ''/out'', True),
        (Makedirs ''/out'', True), (Keys ''/m'', True), (Open_mbox ''/out/Inbox.mbox'', True),
        (Get_message ''/m'' ''m1'', True),
        (Add ''/out/Inbox.mbox'' (Message ''parsed m1''), False),
        (Get_file ''/m'' ''m1'', True),
        (Add ''/out/Inbox.mbox'' (MboxMessage ''bytes of m1''), False),
        (Add ''/out/Inbox.mbox'' (MboxMessage placeholder), False),
        (Flush ''/out/Inbox.mbox'', True), (Close ''/out/Inbox.mbox'', True),
        (Makedirs ''/out'', True), (Keys ''/m/.Sent'', True), (Open_mbox ''/out/Sent.mbox'', True),
        (Get_message ''/m/.Sent'' ''m2'', True),
        (Add ''/out/Sent.mbox'' (Message ''parsed m2''), False),
        (Get_file ''/m/.Sent'' ''m2'', True),
        (Add ''/out/Sent.mbox'' (MboxMessage ''bytes of m2''), False),
        (Add ''/out/Sent.mbox'' (MboxMessage placeholder), False),
        (Flush ''/out/Sent.mbox'', True), (Close ''/out/Sent.mbox'', True),
        (Makedirs ''/out'', True), (Keys ''/m/Sent'', True), (Open_mbox ''/out/Sent.mbox'', True),
        (Get_message ''/m/Sent'' ''m3'', True),
        (Add ''/out/Sent.mbox'' (Message ''parsed m3''), False),
        (Get_file ''/m/Sent'' ''m3'', True),
        (Add ''/out/Sent.mbox'' (MboxMessage ''bytes of m3''), False),
        (Add ''/out/Sent.mbox'' (MboxMessage placeholder), False),
        (Flush ''/out/Sent.mbox'', True), (Close ''/out/Sent.mbox'', True)]))"
  by code_simp

end
